theory Spec2Isabelle
  imports Main
begin

section \<open>Values and the object heap\<close>

text \<open>
  The library works on JavaScript values. A value is a primitive or a reference to an
  object; objects live in a heap and are shared by reference, so that freezing and
  writing are effects on the heap. A heap is the list of its objects, an address is an
  index into it, and allocation appends.

  Numbers are modelled as integers (zero is the only falsy number of the model).
  Functions are opaque: an object of kind function can be frozen, read and written like
  any object, and nothing in the model calls it.
\<close>

type_synonym addr = nat

datatype jsval = VUndefined | VNull | VBool bool | VNum int | VStr string | VRef addr

text \<open>
  A property key is a name, or the index of an array element (the canonical numeric
  strings \<open>"0"\<close>, \<open>"1"\<close>, ... of the language).
\<close>

datatype key = Name string | Index nat

text \<open>
  An object is a plain object, an array or a function. The flag of a function says
  whether it carries the built-in restricted properties \<open>arguments\<close> and \<open>caller\<close>,
  own accessor properties whose getter throws a \<open>TypeError\<close> (the functions of strict
  code in an ES5 host). Every other own property is a data property with its value and
  its \<open>writable\<close> and \<open>configurable\<close> attributes, and the list of the properties is in
  the order in which the host enumerates them. The properties of an array are its
  elements; its \<open>length\<close> holds a number and is not kept as a property.
\<close>

datatype kind = KObject | KArray | KFunction bool

datatype jsproperty = DataProperty (pvalue: jsval) (writable: bool) (configurable: bool)

datatype jsobj = JSObject (kind: kind) (extensible: bool) (props: "(key \<times> jsproperty) list")

type_synonym heap = "jsobj list"

datatype error = TypeError | SyntaxError | DataCloneError | UserError string

datatype 'a outcome = Returns 'a | Throws error

datatype jstype = T_undefined | T_object | T_boolean | T_number | T_string | T_function

subsection \<open>Host operations\<close>

text \<open>
  An address outside the heap denotes no object. No heap built by the operations below
  contains one; the host operations treat it as an object without properties on which
  there is nothing to freeze.
\<close>

definition truthy :: "jsval \<Rightarrow> bool" where
  "truthy v = (case v of
      VUndefined \<Rightarrow> False
    | VNull \<Rightarrow> False
    | VBool b \<Rightarrow> b
    | VNum n \<Rightarrow> n \<noteq> 0
    | VStr s \<Rightarrow> s \<noteq> []
    | VRef a \<Rightarrow> True)"

definition typeof :: "heap \<Rightarrow> jsval \<Rightarrow> jstype" where
  "typeof h v = (case v of
      VUndefined \<Rightarrow> T_undefined
    | VNull \<Rightarrow> T_object
    | VBool b \<Rightarrow> T_boolean
    | VNum n \<Rightarrow> T_number
    | VStr s \<Rightarrow> T_string
    | VRef a \<Rightarrow> (if a < length h then
                   (case kind (h ! a) of KFunction r \<Rightarrow> T_function | _ \<Rightarrow> T_object)
                 else T_object))"

definition freezeProperty :: "jsproperty \<Rightarrow> jsproperty" where
  "freezeProperty p = DataProperty (pvalue p) False False"

definition freezeObject :: "jsobj \<Rightarrow> jsobj" where
  "freezeObject ob = JSObject (kind ob) False (map (\<lambda>(k, p). (k, freezeProperty p)) (props ob))"

definition frozenObject :: "jsobj \<Rightarrow> bool" where
  "frozenObject ob = (\<not> extensible ob \<and>
     list_all (\<lambda>(k, p). \<not> writable p \<and> \<not> configurable p) (props ob))"

text \<open>\<open>Object.freeze\<close>: a primitive is returned as it is.\<close>

definition Object_freeze :: "jsval \<Rightarrow> heap \<Rightarrow> heap" where
  "Object_freeze v h = (case v of
      VRef a \<Rightarrow> (if a < length h then h[a := freezeObject (h ! a)] else h)
    | _ \<Rightarrow> h)"

text \<open>\<open>Object.isFrozen\<close>: a primitive is frozen.\<close>

definition Object_isFrozen :: "heap \<Rightarrow> jsval \<Rightarrow> bool" where
  "Object_isFrozen h v = (case v of
      VRef a \<Rightarrow> (if a < length h then frozenObject (h ! a) else True)
    | _ \<Rightarrow> True)"

definition restrictedNames :: "key list" where
  "restrictedNames = [Name ''arguments'', Name ''caller'']"

definition hasRestricted :: "jsobj \<Rightarrow> bool" where
  "hasRestricted ob = (case kind ob of KFunction r \<Rightarrow> r | _ \<Rightarrow> False)"

text \<open>
  \<open>Object.getOwnPropertyNames\<close>. The own properties of a primitive string (its
  characters and its length) hold primitives only and are left out.
\<close>

definition getOwnPropertyNames :: "heap \<Rightarrow> jsval \<Rightarrow> key list" where
  "getOwnPropertyNames h v = (case v of
      VRef a \<Rightarrow> (if a < length h then
                   (if hasRestricted (h ! a) then restrictedNames else []) @
                   map fst (props (h ! a))
                 else [])
    | _ \<Rightarrow> [])"

definition hasOwnProperty :: "heap \<Rightarrow> jsval \<Rightarrow> key \<Rightarrow> bool" where
  "hasOwnProperty h v k = (k \<in> set (getOwnPropertyNames h v))"

text \<open>Reading \<open>obj[prop]\<close> for an own property.\<close>

definition Get :: "heap \<Rightarrow> jsval \<Rightarrow> key \<Rightarrow> jsval outcome" where
  "Get h v k = (case v of
      VRef a \<Rightarrow> (if a < length h then
                   (if hasRestricted (h ! a) \<and> k \<in> set restrictedNames then Throws TypeError
                    else (case map_of (props (h ! a)) k of
                            Some p \<Rightarrow> Returns (pvalue p)
                          | None \<Rightarrow> Returns VUndefined))
                 else Returns VUndefined)
    | _ \<Rightarrow> Returns VUndefined)"

text \<open>
  The assignment \<open>obj[k] = v\<close> and \<open>delete obj[k]\<close> on own data properties. A write that
  the object does not allow is rejected and leaves the heap as it is; so does, in the
  model, a write to a value that is not an object.
\<close>

fun putProperty :: "key \<Rightarrow> jsval \<Rightarrow> (key \<times> jsproperty) list \<Rightarrow> (key \<times> jsproperty) list" where
  "putProperty k v [] = []"
| "putProperty k v ((k', p) # ps) =
    (if k' = k then (k', if writable p then DataProperty v True (configurable p) else p) # ps
     else (k', p) # putProperty k v ps)"

definition putObject :: "key \<Rightarrow> jsval \<Rightarrow> jsobj \<Rightarrow> jsobj" where
  "putObject k v ob =
    (if k \<in> set (map fst (props ob)) then JSObject (kind ob) (extensible ob) (putProperty k v (props ob))
     else if extensible ob then JSObject (kind ob) True (props ob @ [(k, DataProperty v True True)])
     else ob)"

definition Put :: "jsval \<Rightarrow> key \<Rightarrow> jsval \<Rightarrow> heap \<Rightarrow> heap" where
  "Put obj k v h = (case obj of
      VRef a \<Rightarrow> (if a < length h then h[a := putObject k v (h ! a)] else h)
    | _ \<Rightarrow> h)"

definition deleteObject :: "key \<Rightarrow> jsobj \<Rightarrow> jsobj" where
  "deleteObject k ob =
     JSObject (kind ob) (extensible ob) (filter (\<lambda>(k', p). \<not> (k' = k \<and> configurable p)) (props ob))"

definition Delete :: "jsval \<Rightarrow> key \<Rightarrow> heap \<Rightarrow> heap" where
  "Delete obj k h = (case obj of
      VRef a \<Rightarrow> (if a < length h then h[a := deleteObject k (h ! a)] else h)
    | _ \<Rightarrow> h)"

section \<open>The deep freezer\<close>

text \<open>
  \<open>deepFreeze\<close> recurses through the heap, and the heap left by one recursive call is
  the heap of the next iteration of \<open>forEach\<close>. The first argument bounds the depth of
  the recursion: \<open>None\<close> says that the bound was reached, so that a result \<open>Some\<close> is a
  run of the source that returned or threw.
\<close>

fun deepFreeze :: "nat \<Rightarrow> jsval \<Rightarrow> heap \<Rightarrow> (jsval outcome \<times> heap) option"
and deepFreeze_forEach :: "nat \<Rightarrow> jsval \<Rightarrow> bool \<Rightarrow> key list \<Rightarrow> heap \<Rightarrow> (unit outcome \<times> heap) option"
where
  "deepFreeze 0 obj h = None"
| "deepFreeze (Suc n) obj h =
    (if truthy obj then
       (let h1 = Object_freeze obj h;
            oIsFunction = (typeof h1 obj = T_function)
        in case deepFreeze_forEach n obj oIsFunction (getOwnPropertyNames h1 obj) h1 of
             None \<Rightarrow> None
           | Some (Throws e, h2) \<Rightarrow> Some (Throws e, h2)
           | Some (Returns u, h2) \<Rightarrow> Some (Returns obj, h2))
     else Some (Returns obj, h))"
| "deepFreeze_forEach n obj oIsFunction [] h = Some (Returns (), h)"
| "deepFreeze_forEach n obj oIsFunction (prop # rest) h =
    (if hasOwnProperty h obj prop \<and>
        (if oIsFunction
         then prop \<noteq> Name ''caller'' \<and> prop \<noteq> Name ''callee'' \<and> prop \<noteq> Name ''arguments''
         else True)
     then
       (case Get h obj prop of
          Throws e \<Rightarrow> Some (Throws e, h)
        | Returns propValue \<Rightarrow>
            if propValue \<noteq> VNull \<and>
               (typeof h propValue = T_object \<or> typeof h propValue = T_function) \<and>
               \<not> Object_isFrozen h propValue
            then (case deepFreeze n propValue h of
                    None \<Rightarrow> None
                  | Some (Throws e, h') \<Rightarrow> Some (Throws e, h')
                  | Some (Returns r, h') \<Rightarrow> deepFreeze_forEach n obj oIsFunction rest h')
            else deepFreeze_forEach n obj oIsFunction rest h)
     else deepFreeze_forEach n obj oIsFunction rest h)"

section \<open>The structural cloner\<close>

subsection \<open>The serialize-based fallback\<close>

text \<open>
  \<open>naiveDeepClone\<close> is \<open>JSON.parse(JSON.stringify(value))\<close>. A JSON text is modelled by
  the tree it denotes. The functions of the model are opaque and are never called, so no
  object has a \<open>toJSON\<close> method or a getter that runs.
\<close>

datatype json = JNull | JBool bool | JNum int | JStr string | JArr "json list" | JObj "(key \<times> json) list"

fun collect :: "'a outcome list \<Rightarrow> 'a list outcome" where
  "collect [] = Returns []"
| "collect (Throws e # rs) = Throws e"
| "collect (Returns x # rs) = (case collect rs of Throws e \<Rightarrow> Throws e | Returns xs \<Rightarrow> Returns (x # xs))"

text \<open>
  \<open>JSON.stringify\<close>: \<open>undefined\<close> and functions have no JSON text (the result \<open>None\<close>);
  in an array they are written \<open>null\<close>, in an object their member is dropped. \<open>stack\<close>
  holds the objects being serialized; meeting one of them again is a cyclic structure and
  throws a \<open>TypeError\<close>.
\<close>

function JSON_serialize :: "heap \<Rightarrow> addr list \<Rightarrow> jsval \<Rightarrow> json option outcome" where
  "JSON_serialize h stack v = (case v of
      VUndefined \<Rightarrow> Returns None
    | VNull \<Rightarrow> Returns (Some JNull)
    | VBool b \<Rightarrow> Returns (Some (JBool b))
    | VNum n \<Rightarrow> Returns (Some (JNum n))
    | VStr s \<Rightarrow> Returns (Some (JStr s))
    | VRef a \<Rightarrow>
        if a < length h then
          (case kind (h ! a) of
             KFunction r \<Rightarrow> Returns None
           | KArray \<Rightarrow>
               if a \<in> set stack then Throws TypeError
               else (case collect (map (\<lambda>kp. JSON_serialize h (a # stack) (pvalue (snd kp))) (props (h ! a))) of
                       Throws e \<Rightarrow> Throws e
                     | Returns elements \<Rightarrow>
                         Returns (Some (JArr (map (\<lambda>el. case el of None \<Rightarrow> JNull | Some j \<Rightarrow> j) elements))))
           | KObject \<Rightarrow>
               if a \<in> set stack then Throws TypeError
               else (case collect (map (\<lambda>kp. JSON_serialize h (a # stack) (pvalue (snd kp))) (props (h ! a))) of
                       Throws e \<Rightarrow> Throws e
                     | Returns members \<Rightarrow>
                         Returns (Some (JObj (concat (map (\<lambda>(k, m). case m of None \<Rightarrow> [] | Some j \<Rightarrow> [(k, j)])
                                                 (zip (map fst (props (h ! a))) members)))))))
        else Returns (Some (JObj [])))"
  by pat_completeness auto
termination
proof (relation "measure (\<lambda>(h, stack, v). card ({..<length h} - set stack))")
  show "wf (measure (\<lambda>(h, stack, v). card ({..<length h} - set stack)))" by simp
next
  fix h :: heap and stack :: "addr list" and v a kp
  assume "a < length h" "a \<notin> set stack"
  then have "{..<length h} - set (a # stack) \<subset> {..<length h} - set stack" by auto
  then have "card ({..<length h} - set (a # stack)) < card ({..<length h} - set stack)"
    by (intro psubset_card_mono) simp_all
  then show "((h, a # stack, pvalue (snd kp)), (h, stack, v))
       \<in> measure (\<lambda>(h, stack, v). card ({..<length h} - set stack))" by simp
next
  fix h :: heap and stack :: "addr list" and v a kp
  assume "a < length h" "a \<notin> set stack"
  then have "{..<length h} - set (a # stack) \<subset> {..<length h} - set stack" by auto
  then have "card ({..<length h} - set (a # stack)) < card ({..<length h} - set stack)"
    by (intro psubset_card_mono) simp_all
  then show "((h, a # stack, pvalue (snd kp)), (h, stack, v))
       \<in> measure (\<lambda>(h, stack, v). card ({..<length h} - set stack))" by simp
qed

definition JSON_stringify :: "heap \<Rightarrow> jsval \<Rightarrow> json option outcome" where
  "JSON_stringify h value = JSON_serialize h [] value"

text \<open>
  \<open>JSON.parse\<close> builds new objects, extensible and with writable, configurable
  properties, the elements of an array under the indices \<open>0\<close>, \<open>1\<close>, ... in order. The
  text of \<open>undefined\<close> is not JSON: a \<open>SyntaxError\<close>.
\<close>

definition newProperty :: "jsval \<Rightarrow> jsproperty" where
  "newProperty v = DataProperty v True True"

fun JSON_build :: "json \<Rightarrow> heap \<Rightarrow> jsval \<times> heap"
and JSON_build_elements :: "json list \<Rightarrow> heap \<Rightarrow> jsval list \<times> heap"
and JSON_build_members :: "(key \<times> json) list \<Rightarrow> heap \<Rightarrow> (key \<times> jsproperty) list \<times> heap"
where
  "JSON_build JNull h = (VNull, h)"
| "JSON_build (JBool b) h = (VBool b, h)"
| "JSON_build (JNum n) h = (VNum n, h)"
| "JSON_build (JStr s) h = (VStr s, h)"
| "JSON_build (JArr js) h =
    (case JSON_build_elements js h of (vs, h1) \<Rightarrow>
       (VRef (length h1),
        h1 @ [JSObject KArray True (zip (map Index [0..<length vs]) (map newProperty vs))]))"
| "JSON_build (JObj ms) h =
    (case JSON_build_members ms h of (ps, h1) \<Rightarrow>
       (VRef (length h1), h1 @ [JSObject KObject True ps]))"
| "JSON_build_elements [] h = ([], h)"
| "JSON_build_elements (j # js) h =
    (case JSON_build j h of (v, h1) \<Rightarrow>
       (case JSON_build_elements js h1 of (vs, h2) \<Rightarrow> (v # vs, h2)))"
| "JSON_build_members [] h = ([], h)"
| "JSON_build_members ((k, j) # ms) h =
    (case JSON_build j h of (v, h1) \<Rightarrow>
       (case JSON_build_members ms h1 of (ps, h2) \<Rightarrow> ((k, newProperty v) # ps, h2)))"

definition JSON_parse :: "json option \<Rightarrow> heap \<Rightarrow> jsval outcome \<times> heap" where
  "JSON_parse text h = (case text of
      None \<Rightarrow> (Throws SyntaxError, h)
    | Some j \<Rightarrow> (case JSON_build j h of (v, h1) \<Rightarrow> (Returns v, h1)))"

definition naiveDeepClone :: "jsval \<Rightarrow> heap \<Rightarrow> jsval outcome \<times> heap" where
  "naiveDeepClone value h = (case JSON_stringify h value of
      Throws e \<Rightarrow> (Throws e, h)
    | Returns text \<Rightarrow> JSON_parse text h)"

subsection \<open>The host's structured clone\<close>

text \<open>
  \<open>structuredClone\<close> copies the objects reachable from its argument, sharing and cycles
  included, and throws a \<open>DataCloneError\<close> when one of them is a function. The model
  computes the reachable addresses (\<open>reachIter\<close> adds the successors as many times as the
  heap has objects), and appends one copy of each reachable object, in the order of
  their addresses; \<open>relocate\<close> is the address of the copy.
\<close>

definition refsOf :: "jsobj \<Rightarrow> addr list" where
  "refsOf ob = concat (map (\<lambda>kp. case pvalue (snd kp) of VRef c \<Rightarrow> [c] | _ \<Rightarrow> []) (props ob))"

definition successors :: "heap \<Rightarrow> addr list \<Rightarrow> addr list" where
  "successors h as = concat (map (\<lambda>a. if a < length h then refsOf (h ! a) else []) as)"

fun reachIter :: "nat \<Rightarrow> heap \<Rightarrow> addr list \<Rightarrow> addr list" where
  "reachIter 0 h as = as"
| "reachIter (Suc n) h as = reachIter n h (remdups (as @ successors h as))"

definition reachable :: "heap \<Rightarrow> jsval \<Rightarrow> addr list" where
  "reachable h v = (case v of VRef a \<Rightarrow> reachIter (length h) h [a] | _ \<Rightarrow> [])"

definition relocate :: "heap \<Rightarrow> addr list \<Rightarrow> addr \<Rightarrow> addr" where
  "relocate h live a = length h + length (filter (\<lambda>b. b \<in> set live) [0..<a])"

definition relocateValue :: "heap \<Rightarrow> addr list \<Rightarrow> jsval \<Rightarrow> jsval" where
  "relocateValue h live v = (case v of VRef a \<Rightarrow> VRef (relocate h live a) | _ \<Rightarrow> v)"

definition cloneObject :: "heap \<Rightarrow> addr list \<Rightarrow> jsobj \<Rightarrow> jsobj" where
  "cloneObject h live ob =
     JSObject (kind ob) True
       (map (\<lambda>kp. (fst kp, newProperty (relocateValue h live (pvalue (snd kp))))) (props ob))"

definition isFunctionAt :: "heap \<Rightarrow> addr \<Rightarrow> bool" where
  "isFunctionAt h a = (a < length h \<and> (case kind (h ! a) of KFunction r \<Rightarrow> True | _ \<Rightarrow> False))"

definition structuredClone :: "jsval \<Rightarrow> heap \<Rightarrow> jsval outcome \<times> heap" where
  "structuredClone value h =
     (let live = reachable h value in
      if list_ex (isFunctionAt h) live then (Throws DataCloneError, h)
      else (Returns (relocateValue h live value),
            h @ map (\<lambda>a. cloneObject h live (h ! a)) (filter (\<lambda>a. a \<in> set live) [0..<length h])))"

text \<open>
  \<open>deepClone\<close> asks the window whether it has \<open>structuredClone\<close>.
\<close>

datatype window = Window (structuredClone_in_window: bool)

definition deepClone :: "window \<Rightarrow> jsval \<Rightarrow> heap \<Rightarrow> jsval outcome \<times> heap" where
  "deepClone w value h =
     (if structuredClone_in_window w then structuredClone value h else naiveDeepClone value h)"

section \<open>The mutation applier\<close>

text \<open>
  A callback of the caller is a computation on the heap that returns, throws, or does
  not return (\<open>None\<close>). A mutation receives the draft; a production strategy receives
  the current value and the mutation.
\<close>

type_synonym 'a comp = "heap \<Rightarrow> ('a outcome \<times> heap) option"

type_synonym mutation = "jsval \<Rightarrow> unit comp"

type_synonym MutationProducerFn = "jsval \<Rightarrow> mutation \<Rightarrow> jsval comp"

definition naiveCloneAndMutate :: "window \<Rightarrow> jsval \<Rightarrow> mutation \<Rightarrow> jsval comp" where
  "naiveCloneAndMutate w currentValue mutation h =
     (case deepClone w currentValue h of
        (Throws e, h1) \<Rightarrow> Some (Throws e, h1)
      | (Returns clone, h1) \<Rightarrow>
          (case mutation clone h1 of
             None \<Rightarrow> None
           | Some (Throws e, h2) \<Rightarrow> Some (Throws e, h2)
           | Some (Returns u, h2) \<Rightarrow> Some (Returns clone, h2)))"

section \<open>The options\<close>

text \<open>
  An optional field is \<open>None\<close> when it is absent (\<open>undefined\<close> or \<open>null\<close>);
  \<open>nullish x d\<close> is \<open>x ?? d\<close>. \<open>FreezingOptions\<close> is the options type of \<open>immutable\<close>,
  \<open>CreateSignalOptions\<close> the one of \<open>immutableSignal\<close>, which adds \<open>equal\<close>. The
  process-wide \<open>globalImmutableSignalOptions\<close> is a value of
  \<open>RequiredImmutableSignalOptions\<close>, passed to the functions that read it and returned by
  the one that sets it; it starts as \<open>getDefaultImmutableSignalOptions\<close>.
\<close>

record FreezingOptions =
  enableDeepFreezing :: "bool option"

record CreateImmutableSignalOptions = FreezingOptions +
  mutationProducerFn :: "MutationProducerFn option"

record CreateSignalOptions = CreateImmutableSignalOptions +
  equal_opt :: "(jsval \<Rightarrow> jsval \<Rightarrow> bool) option"

record RequiredImmutableSignalOptions =
  requiredMutationProducerFn :: MutationProducerFn
  requiredEnableDeepFreezing :: bool

definition nullish :: "'a option \<Rightarrow> 'a \<Rightarrow> 'a" where
  "nullish x d = (case x of Some y \<Rightarrow> y | None \<Rightarrow> d)"

definition getDefaultImmutableSignalOptions :: "window \<Rightarrow> RequiredImmutableSignalOptions" where
  "getDefaultImmutableSignalOptions w =
     \<lparr> requiredMutationProducerFn = naiveCloneAndMutate w,
       requiredEnableDeepFreezing = False \<rparr>"

definition setGlobalImmutableSignalOptions ::
  "window \<Rightarrow> CreateImmutableSignalOptions option \<Rightarrow>
   RequiredImmutableSignalOptions \<Rightarrow> RequiredImmutableSignalOptions" where
  "setGlobalImmutableSignalOptions w options globalImmutableSignalOptions =
     (case options of
        None \<Rightarrow> globalImmutableSignalOptions
      | Some opts \<Rightarrow>
          (let defaultOptions = getDefaultImmutableSignalOptions w in
           \<lparr> requiredMutationProducerFn =
               nullish (mutationProducerFn opts) (requiredMutationProducerFn defaultOptions),
             requiredEnableDeepFreezing =
               nullish (enableDeepFreezing opts) (requiredEnableDeepFreezing defaultOptions) \<rparr>))"

section \<open>Immutable signals\<close>

subsection \<open>The host's signals\<close>

text \<open>
  The signals of the host are kept in a store. A writable signal holds its current
  value and its equality function; \<open>set\<close> stores a value that is not equal to the
  current one, \<open>update\<close> sets what the update function returns. The only computed
  signals are the ones \<open>immutable\<close> creates, \<open>computed(() => deepFreeze(sig()))\<close>; reading
  one reads its source and freezes the value (the host's caching of the result is not
  modelled).
\<close>

datatype signode = WritableNode (current: jsval) (equalFn: "jsval \<Rightarrow> jsval \<Rightarrow> bool")
  | ComputedDeepFreeze (source: nat)

type_synonym signals = "signode list"

definition signal :: "jsval \<Rightarrow> (jsval \<Rightarrow> jsval \<Rightarrow> bool) \<Rightarrow> signals \<Rightarrow> nat \<times> signals" where
  "signal initialValue eq sigs = (length sigs, sigs @ [WritableNode initialValue eq])"

definition computed_deepFreeze :: "nat \<Rightarrow> signals \<Rightarrow> nat \<times> signals" where
  "computed_deepFreeze sig sigs = (length sigs, sigs @ [ComputedDeepFreeze sig])"

function readSignal :: "nat \<Rightarrow> signals \<Rightarrow> nat \<Rightarrow> jsval comp" where
  "readSignal n sigs sig h =
     (if sig < length sigs then
        (case sigs ! sig of
           WritableNode v eq \<Rightarrow> Some (Returns v, h)
         | ComputedDeepFreeze src \<Rightarrow>
             if src < sig then
               (case readSignal n sigs src h of
                  None \<Rightarrow> None
                | Some (Throws e, h1) \<Rightarrow> Some (Throws e, h1)
                | Some (Returns v, h1) \<Rightarrow> deepFreeze n v h1)
             else Some (Throws (UserError ''cycle''), h))
      else Some (Returns VUndefined, h))"
  by pat_completeness auto
termination
  by (relation "measure (\<lambda>(n, sigs, sig, h). sig)") auto

definition signal_set :: "nat \<Rightarrow> jsval \<Rightarrow> signals \<Rightarrow> signals" where
  "signal_set sig newValue sigs =
     (if sig < length sigs then
        (case sigs ! sig of
           WritableNode v eq \<Rightarrow> if eq v newValue then sigs else sigs[sig := WritableNode newValue eq]
         | ComputedDeepFreeze src \<Rightarrow> sigs)
      else sigs)"

definition signal_update ::
  "nat \<Rightarrow> (jsval \<Rightarrow> jsval comp) \<Rightarrow> signals \<Rightarrow> heap \<Rightarrow> (unit outcome \<times> signals \<times> heap) option" where
  "signal_update sig updateFn sigs h =
     (if sig < length sigs then
        (case sigs ! sig of
           WritableNode v eq \<Rightarrow>
             (case updateFn v h of
                None \<Rightarrow> None
              | Some (Throws e, h1) \<Rightarrow> Some (Throws e, sigs, h1)
              | Some (Returns newValue, h1) \<Rightarrow> Some (Returns (), signal_set sig newValue sigs, h1))
         | ComputedDeepFreeze src \<Rightarrow> Some (Throws TypeError, sigs, h))
      else Some (Throws TypeError, sigs, h))"

subsection \<open>\<open>immutable\<close> and \<open>immutableSignal\<close>\<close>

text \<open>
  \<open>immutableSignal\<close> returns a proxy of the signal it creates. The proxy is modelled by
  what its handler closes over: the target, \<open>deepFreezeEnabled\<close> and \<open>mutateFn\<close>.
  \<open>proxy_set\<close>, \<open>proxy_update\<close> and \<open>proxy_mutate\<close> are the functions the handler returns
  for the properties \<open>set\<close>, \<open>update\<close> and \<open>mutate\<close>.
\<close>

definition immutable ::
  "nat \<Rightarrow> FreezingOptions option \<Rightarrow> RequiredImmutableSignalOptions \<Rightarrow> signals \<Rightarrow> nat \<times> signals" where
  "immutable sig options globalImmutableSignalOptions sigs =
     (if nullish (Option.bind options enableDeepFreezing)
           (requiredEnableDeepFreezing globalImmutableSignalOptions)
      then computed_deepFreeze sig sigs
      else (sig, sigs))"

record ImmutableWritableSignal =
  target :: nat
  deepFreezeEnabled :: bool
  mutateFn :: MutationProducerFn

definition immutableSignal ::
  "jsval \<Rightarrow> CreateSignalOptions option \<Rightarrow> RequiredImmutableSignalOptions \<Rightarrow> signals \<Rightarrow>
   ImmutableWritableSignal \<times> signals" where
  "immutableSignal initialValue options globalImmutableSignalOptions sigs =
     (let strictEqualityFn = nullish (Option.bind options equal_opt) (\<lambda>a b. a = b);
          (sig, sigs1) = signal initialValue strictEqualityFn sigs;
          deepFreezeEnabled = nullish (Option.bind options enableDeepFreezing)
             (requiredEnableDeepFreezing globalImmutableSignalOptions);
          mutateFn = nullish (Option.bind options mutationProducerFn)
             (requiredMutationProducerFn globalImmutableSignalOptions)
      in (\<lparr> target = sig, deepFreezeEnabled = deepFreezeEnabled, mutateFn = mutateFn \<rparr>, sigs1))"

definition proxy_set ::
  "nat \<Rightarrow> ImmutableWritableSignal \<Rightarrow> jsval \<Rightarrow> signals \<Rightarrow> heap \<Rightarrow>
   (unit outcome \<times> signals \<times> heap) option" where
  "proxy_set n s val sigs h =
     (if \<not> deepFreezeEnabled s then Some (Returns (), signal_set (target s) val sigs, h)
      else (case deepFreeze n val h of
              None \<Rightarrow> None
            | Some (Throws e, h1) \<Rightarrow> Some (Throws e, sigs, h1)
            | Some (Returns frozen, h1) \<Rightarrow> Some (Returns (), signal_set (target s) frozen sigs, h1)))"

definition proxy_update ::
  "nat \<Rightarrow> ImmutableWritableSignal \<Rightarrow> (jsval \<Rightarrow> jsval comp) \<Rightarrow> signals \<Rightarrow> heap \<Rightarrow>
   (unit outcome \<times> signals \<times> heap) option" where
  "proxy_update n s updateFn sigs h =
     (if \<not> deepFreezeEnabled s then signal_update (target s) updateFn sigs h
      else signal_update (target s)
             (\<lambda>val h0. case updateFn val h0 of
                          None \<Rightarrow> None
                        | Some (Throws e, h1) \<Rightarrow> Some (Throws e, h1)
                        | Some (Returns r, h1) \<Rightarrow> deepFreeze n r h1)
             sigs h)"

definition proxy_mutate ::
  "ImmutableWritableSignal \<Rightarrow> mutation \<Rightarrow> signals \<Rightarrow> heap \<Rightarrow>
   (unit outcome \<times> signals \<times> heap) option" where
  "proxy_mutate s mutatorFn sigs h =
     signal_update (target s) (\<lambda>val. mutateFn s val mutatorFn) sigs h"

section \<open>Notions used to state the properties\<close>

subsection \<open>For the deep freezer\<close>

text \<open>
  \<open>freezes h h'\<close>: the heap \<open>h'\<close> is \<open>h\<close> with some of its objects frozen and nothing
  else changed. \<open>traversed\<close> is the filter of the traversal on property names, and
  \<open>unfrozenObjectValue\<close> the test that guards the recursive call.
  \<open>traversedEdge h a c\<close>: the object at \<open>a\<close> has an own property that the traversal
  reads and that holds a reference to \<open>c\<close>.
  \<open>freezeReach h v a\<close>: \<open>a\<close> is reached from \<open>v\<close> along traversed properties through
  objects that are not frozen in \<open>h\<close> (the root \<open>v\<close> may be frozen).
  \<open>ownReach h v a\<close>: \<open>a\<close> is reached from \<open>v\<close> along own properties, whatever is frozen.
  \<open>frozenAfter\<close> and \<open>visitedAfter\<close> are what a run of \<open>deepFreeze\<close> and of its iteration
  over the property names establish: every object the run froze, and the argument, has
  all its traversed children frozen. \<open>unfrozen h\<close> is the set of the objects of \<open>h\<close> that
  are not frozen; its size bounds the depth of the recursion.
\<close>

definition freezes :: "heap \<Rightarrow> heap \<Rightarrow> bool" where
  "freezes h h' = (length h' = length h \<and>
     (\<forall>a. a < length h \<longrightarrow> h' ! a = h ! a \<or> h' ! a = freezeObject (h ! a)))"

definition traversed :: "bool \<Rightarrow> key \<Rightarrow> bool" where
  "traversed isF k =
     (if isF then k \<noteq> Name ''caller'' \<and> k \<noteq> Name ''callee'' \<and> k \<noteq> Name ''arguments'' else True)"

definition unfrozenObjectValue :: "heap \<Rightarrow> jsval \<Rightarrow> bool" where
  "unfrozenObjectValue h v =
     (v \<noteq> VNull \<and> (typeof h v = T_object \<or> typeof h v = T_function) \<and> \<not> Object_isFrozen h v)"

definition traversedEdge :: "heap \<Rightarrow> addr \<Rightarrow> addr \<Rightarrow> bool" where
  "traversedEdge h a c = (\<exists>k. hasOwnProperty h (VRef a) k \<and>
      traversed (typeof h (VRef a) = T_function) k \<and> Get h (VRef a) k = Returns (VRef c))"

definition childrenFrozen :: "heap \<Rightarrow> addr \<Rightarrow> bool" where
  "childrenFrozen h a = (\<forall>c. traversedEdge h a c \<longrightarrow> Object_isFrozen h (VRef c))"

definition newlyFrozen :: "heap \<Rightarrow> heap \<Rightarrow> addr \<Rightarrow> bool" where
  "newlyFrozen h h' a = (\<not> Object_isFrozen h (VRef a) \<and> Object_isFrozen h' (VRef a))"

definition frozenAfter :: "jsval \<Rightarrow> heap \<Rightarrow> heap \<Rightarrow> bool" where
  "frozenAfter obj h h' = (Object_isFrozen h' obj \<and>
     (\<forall>a. newlyFrozen h h' a \<longrightarrow> childrenFrozen h' a) \<and>
     (\<forall>a. obj = VRef a \<longrightarrow> childrenFrozen h' a))"

definition visitedAfter :: "jsval \<Rightarrow> bool \<Rightarrow> key list \<Rightarrow> heap \<Rightarrow> heap \<Rightarrow> bool" where
  "visitedAfter obj isF ps h h' = (
     (\<forall>a. newlyFrozen h h' a \<longrightarrow> childrenFrozen h' a) \<and>
     (\<forall>k c. k \<in> set ps \<longrightarrow> hasOwnProperty h obj k \<longrightarrow> traversed isF k \<longrightarrow>
        Get h obj k = Returns (VRef c) \<longrightarrow> Object_isFrozen h' (VRef c)))"

inductive freezeReach :: "heap \<Rightarrow> jsval \<Rightarrow> addr \<Rightarrow> bool" for h :: heap and v :: jsval where
  root: "v = VRef a \<Longrightarrow> freezeReach h v a"
| step: "freezeReach h v a \<Longrightarrow> v = VRef a \<or> \<not> Object_isFrozen h (VRef a) \<Longrightarrow>
         traversedEdge h a c \<Longrightarrow> freezeReach h v c"

definition unfrozen :: "heap \<Rightarrow> addr set" where
  "unfrozen h = {a. a < length h \<and> \<not> frozenObject (h ! a)}"

inductive ownReach :: "heap \<Rightarrow> jsval \<Rightarrow> addr \<Rightarrow> bool" for h :: heap and v :: jsval where
  own_root: "v = VRef a \<Longrightarrow> ownReach h v a"
| own_step: "ownReach h v a \<Longrightarrow> hasOwnProperty h (VRef a) k \<Longrightarrow>
         Get h (VRef a) k = Returns (VRef c) \<Longrightarrow> ownReach h v c"

subsection \<open>For the cloner and the mutation applier\<close>

text \<open>
  \<open>represents h v t\<close>: in the heap \<open>h\<close> the value \<open>v\<close> is the JSON value \<open>t\<close>, built
  from \<open>null\<close>, booleans, numbers, strings, arrays (with the indices \<open>0\<close>, \<open>1\<close>, ... as
  keys) and plain objects (with distinct keys). A value that represents a tree is
  acyclic, and two values are deeply equal when they represent the same tree.
  \<open>writesOnlyDraft m\<close>: the mutation \<open>m\<close> changes no object but those reached from its
  draft through own properties; it may allocate.
  \<open>allocates h h1\<close>: \<open>h1\<close> is \<open>h\<close> followed by new objects that refer to new objects only.
\<close>

fun represents :: "heap \<Rightarrow> jsval \<Rightarrow> json \<Rightarrow> bool" where
  "represents h v JNull = (v = VNull)"
| "represents h v (JBool b) = (v = VBool b)"
| "represents h v (JNum n) = (v = VNum n)"
| "represents h v (JStr s) = (v = VStr s)"
| "represents h v (JArr js) = (case v of
      VRef a \<Rightarrow> a < length h \<and> kind (h ! a) = KArray \<and>
                map fst (props (h ! a)) = map Index [0..<length js] \<and>
                list_all2 (\<lambda>kp j. represents h (pvalue (snd kp)) j) (props (h ! a)) js
    | _ \<Rightarrow> False)"
| "represents h v (JObj ms) = (case v of
      VRef a \<Rightarrow> a < length h \<and> kind (h ! a) = KObject \<and>
                map fst (props (h ! a)) = map fst ms \<and> distinct (map fst ms) \<and>
                list_all2 (\<lambda>kp m. represents h (pvalue (snd kp)) (snd m)) (props (h ! a)) ms
    | _ \<Rightarrow> False)"

fun distinctKeys :: "json \<Rightarrow> bool" where
  "distinctKeys (JArr js) = list_all distinctKeys js"
| "distinctKeys (JObj ms) = (distinct (map fst ms) \<and> list_all (\<lambda>m. distinctKeys (snd m)) ms)"
| "distinctKeys j = True"

definition writesOnlyDraft :: "mutation \<Rightarrow> bool" where
  "writesOnlyDraft m = (\<forall>d h r h'. m d h = Some (r, h') \<longrightarrow>
      length h \<le> length h' \<and> (\<forall>a. a < length h \<longrightarrow> \<not> ownReach h d a \<longrightarrow> h' ! a = h ! a))"

definition freshValue :: "nat \<Rightarrow> jsval \<Rightarrow> bool" where
  "freshValue n v = (case v of VRef a \<Rightarrow> n \<le> a | _ \<Rightarrow> True)"

definition freshObject :: "nat \<Rightarrow> jsobj \<Rightarrow> bool" where
  "freshObject n ob = list_all (\<lambda>kp. freshValue n (pvalue (snd kp))) (props ob)"

definition allocates :: "heap \<Rightarrow> heap \<Rightarrow> bool" where
  "allocates h h1 = (\<exists>new. h1 = h @ new \<and> list_all (freshObject (length h)) new)"

text \<open>
  The sets behind \<open>reachable\<close>: the successors of a set of addresses, one step of the
  iteration, and the addresses of a set that are objects of the heap.
\<close>

definition succs :: "heap \<Rightarrow> addr set \<Rightarrow> addr set" where
  "succs h S = {c. \<exists>a \<in> S. a < length h \<and> c \<in> set (refsOf (h ! a))}"

definition grow :: "heap \<Rightarrow> addr set \<Rightarrow> addr set" where
  "grow h S = S \<union> succs h S"

definition valid :: "heap \<Rightarrow> addr set \<Rightarrow> addr set" where
  "valid h S = {a \<in> S. a < length h}"

section \<open>Examples\<close>

text \<open>
  \<open>heap_interior\<close>: a root whose property holds a frozen object, whose property holds an
  object that is not frozen. \<open>heap_cyclic\<close>: a root that refers to itself, to a child
  that refers back, and to an array that both share. \<open>heap_function kd\<close>: an object of
  kind \<open>kd\<close> with a property \<open>callee\<close> and a property \<open>data\<close>, both holding an object.
\<close>

definition heap_interior :: heap where
  "heap_interior =
    [JSObject KObject True [(Name ''inner'', DataProperty (VRef 1) True True)],
     JSObject KObject False [(Name ''leaf'', DataProperty (VRef 2) False False)],
     JSObject KObject True [(Name ''x'', DataProperty (VNum 1) True True)]]"

definition heap_interior_after :: heap where
  "heap_interior_after =
    [JSObject KObject False [(Name ''inner'', DataProperty (VRef 1) False False)],
     JSObject KObject False [(Name ''leaf'', DataProperty (VRef 2) False False)],
     JSObject KObject True [(Name ''x'', DataProperty (VNum 1) True True)]]"

definition heap_cyclic :: heap where
  "heap_cyclic =
    [JSObject KObject True [(Name ''self'', DataProperty (VRef 0) True True),
                            (Name ''child'', DataProperty (VRef 1) True True),
                            (Name ''shared'', DataProperty (VRef 2) True True)],
     JSObject KObject True [(Name ''parent'', DataProperty (VRef 0) True True),
                            (Name ''shared'', DataProperty (VRef 2) True True)],
     JSObject KArray True [(Index 0, DataProperty (VNum 1) True True)]]"

definition heap_cyclic_after :: heap where
  "heap_cyclic_after =
    [JSObject KObject False [(Name ''self'', DataProperty (VRef 0) False False),
                            (Name ''child'', DataProperty (VRef 1) False False),
                            (Name ''shared'', DataProperty (VRef 2) False False)],
     JSObject KObject False [(Name ''parent'', DataProperty (VRef 0) False False),
                            (Name ''shared'', DataProperty (VRef 2) False False)],
     JSObject KArray False [(Index 0, DataProperty (VNum 1) False False)]]"

definition heap_function :: "kind \<Rightarrow> heap" where
  "heap_function kd =
    [JSObject kd True [(Name ''callee'', DataProperty (VRef 1) True True),
                       (Name ''data'', DataProperty (VRef 2) True True)],
     JSObject KObject True [],
     JSObject KObject True []]"

definition heap_function_after :: "kind \<Rightarrow> bool \<Rightarrow> heap" where
  "heap_function_after kd ext =
    [JSObject kd False [(Name ''callee'', DataProperty (VRef 1) False False),
                       (Name ''data'', DataProperty (VRef 2) False False)],
     JSObject KObject ext [],
     JSObject KObject False []]"

text \<open>
  \<open>heap_a\<close> holds \<open>{a: 1}\<close> and \<open>heap_count\<close> holds \<open>{count: 0}\<close>. The mutations set a
  property of the draft; \<open>mutation_failing\<close> writes and then throws;
  \<open>mutation_conditional\<close> does so when the draft's \<open>a\<close> is 1 and returns otherwise. \<open>update_fresh\<close>
  returns a new object \<open>{count: 1}\<close>. \<open>heap_json\<close> holds
  \<open>{a: 1, b: {c: 2}, list: [4, b]}\<close>, where the object under \<open>b\<close> is shared;
  \<open>heap_json_structured\<close> and \<open>heap_json_naive\<close> are the heaps after the two ways of
  cloning it.
\<close>

definition heap_a :: heap where
  "heap_a = [JSObject KObject True [(Name ''a'', DataProperty (VNum 1) True True)]]"

definition mutation_noop :: mutation where
  "mutation_noop state h = Some (Returns (), h)"

definition mutation_set_a :: mutation where
  "mutation_set_a state h = Some (Returns (), Put state (Name ''a'') (VNum 42) h)"

definition mutation_failing :: mutation where
  "mutation_failing state h =
     Some (Throws (UserError ''Mutation error''), Put state (Name ''a'') (VNum 42) h)"

definition mutation_conditional :: mutation where
  "mutation_conditional state h =
     (if Get h state (Name ''a'') = Returns (VNum 1)
      then Some (Throws (UserError ''Mutation error''), Put state (Name ''a'') (VNum 42) h)
      else Some (Returns (), h))"

definition heap_count :: heap where
  "heap_count = [JSObject KObject True [(Name ''count'', DataProperty (VNum 0) True True)]]"

definition mutation_increment :: mutation where
  "mutation_increment state h = Some (Returns (), Put state (Name ''count'') (VNum 1) h)"

definition producer_example :: MutationProducerFn where
  "producer_example currentValue mutation h = Some (Returns currentValue, h)"

definition options_freezing :: CreateSignalOptions where
  "options_freezing = \<lparr> enableDeepFreezing = Some True, mutationProducerFn = None, equal_opt = None \<rparr>"

definition heap_count_frozen :: heap where
  "heap_count_frozen = [JSObject KObject False [(Name ''count'', DataProperty (VNum 0) False False)]]"

definition update_fresh :: "jsval \<Rightarrow> jsval comp" where
  "update_fresh val h =
     Some (Returns (VRef (length h)),
           h @ [JSObject KObject True [(Name ''count'', DataProperty (VNum 1) True True)]])"

definition heap_json :: heap where
  "heap_json =
    [JSObject KObject True [(Name ''a'', DataProperty (VNum 1) True True),
                            (Name ''b'', DataProperty (VRef 1) True True),
                            (Name ''list'', DataProperty (VRef 2) True True)],
     JSObject KObject True [(Name ''c'', DataProperty (VNum 2) True True)],
     JSObject KArray True [(Index 0, DataProperty (VNum 4) True True),
                           (Index 1, DataProperty (VRef 1) True True)]]"

definition json_example :: json where
  "json_example =
     JObj [(Name ''a'', JNum 1),
           (Name ''b'', JObj [(Name ''c'', JNum 2)]),
           (Name ''list'', JArr [JNum 4, JObj [(Name ''c'', JNum 2)]])]"

definition heap_json_structured :: heap where
  "heap_json_structured = heap_json @
    [JSObject KObject True [(Name ''a'', DataProperty (VNum 1) True True),
                            (Name ''b'', DataProperty (VRef 4) True True),
                            (Name ''list'', DataProperty (VRef 5) True True)],
     JSObject KObject True [(Name ''c'', DataProperty (VNum 2) True True)],
     JSObject KArray True [(Index 0, DataProperty (VNum 4) True True),
                           (Index 1, DataProperty (VRef 4) True True)]]"

definition heap_json_naive :: heap where
  "heap_json_naive = heap_json @
    [JSObject KObject True [(Name ''c'', DataProperty (VNum 2) True True)],
     JSObject KObject True [(Name ''c'', DataProperty (VNum 2) True True)],
     JSObject KArray True [(Index 0, DataProperty (VNum 4) True True),
                           (Index 1, DataProperty (VRef 4) True True)],
     JSObject KObject True [(Name ''a'', DataProperty (VNum 1) True True),
                            (Name ''b'', DataProperty (VRef 3) True True),
                            (Name ''list'', DataProperty (VRef 5) True True)]]"

section \<open>Properties of the deep freezer\<close>

subsection \<open>Freezing changes attributes only\<close>

lemma frozenObject_freezeObject: "frozenObject (freezeObject ob)"
  by (cases ob) (simp add: frozenObject_def freezeObject_def freezeProperty_def list_all_iff split_def)

lemma freezeObject_frozen: "frozenObject ob \<Longrightarrow> freezeObject ob = ob"
proof (cases ob)
  case (JSObject kd ex ps)
  assume fr: "frozenObject ob"
  have "map (\<lambda>(k, p). (k, freezeProperty p)) ps = ps"
  proof (rule map_idI)
    fix x assume "x \<in> set ps"
    with fr JSObject show "(case x of (k, p) \<Rightarrow> (k, freezeProperty p)) = x"
      by (cases x; cases "snd x") (auto simp: frozenObject_def freezeProperty_def list_all_iff)
  qed
  with fr JSObject show ?thesis by (simp add: freezeObject_def frozenObject_def)
qed

lemma freezeObject_idem: "freezeObject (freezeObject ob) = freezeObject ob"
  by (simp add: freezeObject_frozen frozenObject_freezeObject)

lemma kind_freezeObject: "kind (freezeObject ob) = kind ob"
  by (simp add: freezeObject_def)

lemma keys_freezeObject: "map fst (props (freezeObject ob)) = map fst (props ob)"
  by (simp add: freezeObject_def split_def comp_def)

lemma map_of_freezeObject:
  "map_of (props (freezeObject ob)) k = map_option freezeProperty (map_of (props ob) k)"
  by (simp add: freezeObject_def map_of_map)

lemma pvalue_freezeProperty: "pvalue (freezeProperty p) = pvalue p"
  by (simp add: freezeProperty_def)

lemma hasRestricted_freezeObject: "hasRestricted (freezeObject ob) = hasRestricted ob"
  by (simp add: hasRestricted_def kind_freezeObject)

lemma freezes_refl: "freezes h h"
  by (simp add: freezes_def)

lemma freezes_trans: "freezes h1 h2 \<Longrightarrow> freezes h2 h3 \<Longrightarrow> freezes h1 h3"
  unfolding freezes_def by (metis freezeObject_idem)

lemma freezes_Object_freeze: "freezes h (Object_freeze v h)"
  by (auto simp: freezes_def Object_freeze_def nth_list_update split: jsval.splits)

lemma freezes_length: "freezes h h' \<Longrightarrow> length h' = length h"
  by (simp add: freezes_def)

lemma freezes_frozenObject:
  "freezes h h' \<Longrightarrow> a < length h \<Longrightarrow> frozenObject (h ! a) \<Longrightarrow> h' ! a = h ! a"
  unfolding freezes_def by (metis freezeObject_frozen)

lemma freezes_isFrozen: "freezes h h' \<Longrightarrow> Object_isFrozen h v \<Longrightarrow> Object_isFrozen h' v"
  by (cases v) (auto simp: Object_isFrozen_def freezes_length dest: freezes_frozenObject)

lemma freezes_kind: "freezes h h' \<Longrightarrow> a < length h \<Longrightarrow> kind (h' ! a) = kind (h ! a)"
  unfolding freezes_def by (metis kind_freezeObject)

lemma freezes_typeof: "freezes h h' \<Longrightarrow> typeof h' v = typeof h v"
  by (cases v) (simp_all add: typeof_def freezes_length freezes_kind)

lemma freezes_keys:
  "freezes h h' \<Longrightarrow> a < length h \<Longrightarrow> map fst (props (h' ! a)) = map fst (props (h ! a))"
  unfolding freezes_def by (metis keys_freezeObject)

lemma freezes_hasRestricted:
  "freezes h h' \<Longrightarrow> a < length h \<Longrightarrow> hasRestricted (h' ! a) = hasRestricted (h ! a)"
  by (simp add: hasRestricted_def freezes_kind)

lemma freezes_names: "freezes h h' \<Longrightarrow> getOwnPropertyNames h' v = getOwnPropertyNames h v"
  by (cases v) (simp_all add: getOwnPropertyNames_def freezes_length freezes_keys freezes_hasRestricted)

lemma freezes_hasOwn: "freezes h h' \<Longrightarrow> hasOwnProperty h' v k = hasOwnProperty h v k"
  by (simp add: hasOwnProperty_def freezes_names)

lemma Get_freezeObject_aux:
  "(case map_of (props (freezeObject ob)) k of Some p \<Rightarrow> Returns (pvalue p) | None \<Rightarrow> Returns VUndefined)
   = (case map_of (props ob) k of Some p \<Rightarrow> Returns (pvalue p) | None \<Rightarrow> Returns VUndefined)"
  by (simp add: map_of_freezeObject pvalue_freezeProperty split: option.splits)

lemma freezes_Get: "freezes h h' \<Longrightarrow> Get h' v k = Get h v k"
proof (cases v)
  case (VRef a)
  assume f: "freezes h h'"
  show ?thesis
  proof (cases "a < length h")
    case True
    with f have "h' ! a = h ! a \<or> h' ! a = freezeObject (h ! a)" by (simp add: freezes_def)
    with True f VRef show ?thesis
      by (auto simp: Get_def freezes_length hasRestricted_freezeObject Get_freezeObject_aux)
  next
    case False
    with f VRef show ?thesis by (simp add: Get_def freezes_length)
  qed
qed (simp_all add: Get_def)

lemma Get_restricted_only:
  "Get h obj k = Throws e \<Longrightarrow> typeof h obj = T_function \<and> k \<in> set restrictedNames"
  by (cases obj) (auto simp: Get_def typeof_def hasRestricted_def split: if_splits option.splits kind.splits)

lemma forEach_skip:
  "\<not> (hasOwnProperty h obj k \<and> traversed isF k) \<Longrightarrow>
   deepFreeze_forEach n obj isF (k # rest) h = deepFreeze_forEach n obj isF rest h"
  by (auto simp: traversed_def)

lemma forEach_throw:
  "hasOwnProperty h obj k \<Longrightarrow> traversed isF k \<Longrightarrow> Get h obj k = Throws e \<Longrightarrow>
   deepFreeze_forEach n obj isF (k # rest) h = Some (Throws e, h)"
  by (auto simp: traversed_def)

lemma forEach_pass:
  "hasOwnProperty h obj k \<Longrightarrow> traversed isF k \<Longrightarrow> Get h obj k = Returns pv \<Longrightarrow>
   \<not> unfrozenObjectValue h pv \<Longrightarrow>
   deepFreeze_forEach n obj isF (k # rest) h = deepFreeze_forEach n obj isF rest h"
  by (auto simp: traversed_def unfrozenObjectValue_def)

lemma forEach_recurse:
  "hasOwnProperty h obj k \<Longrightarrow> traversed isF k \<Longrightarrow> Get h obj k = Returns pv \<Longrightarrow>
   unfrozenObjectValue h pv \<Longrightarrow>
   deepFreeze_forEach n obj isF (k # rest) h =
     (case deepFreeze n pv h of
        None \<Rightarrow> None
      | Some (Throws e, h') \<Rightarrow> Some (Throws e, h')
      | Some (Returns r, h') \<Rightarrow> deepFreeze_forEach n obj isF rest h')"
  by (auto simp: traversed_def unfrozenObjectValue_def)

lemma traversed_not_restricted:
  "traversed True k \<Longrightarrow> k \<notin> set restrictedNames"
  by (auto simp: traversed_def restrictedNames_def)

lemma Get_no_throw:
  assumes "isF = (typeof h obj = T_function)" "traversed isF k"
  shows "\<exists>pv. Get h obj k = Returns pv"
proof (cases "Get h obj k")
  case (Throws e)
  from Get_restricted_only[OF this] assms show ?thesis
    by (auto dest: traversed_not_restricted)
qed simp

lemma deepFreeze_shape:
  "deepFreeze n obj h = Some (r, h') \<Longrightarrow> r = Returns obj \<and> freezes h h'"
  "deepFreeze_forEach n obj isF ps h = Some (r2, h2) \<Longrightarrow> isF = (typeof h obj = T_function) \<Longrightarrow>
     r2 = Returns () \<and> freezes h h2"
proof (induction n obj h and n obj isF ps h arbitrary: r h' and r2 h2
       rule: deepFreeze_deepFreeze_forEach.induct)
  case (1 obj h)
  then show ?case by simp
next
  case (2 n obj h)
  show ?case
  proof (cases "truthy obj")
    case False
    with "2.prems" show ?thesis by (simp add: freezes_refl)
  next
    case True
    let ?h1 = "Object_freeze obj h"
    let ?f = "typeof ?h1 obj = T_function"
    from "2.prems" True obtain r2 h2 where
      fe: "deepFreeze_forEach n obj ?f (getOwnPropertyNames ?h1 obj) ?h1 = Some (r2, h2)"
      by (auto simp: Let_def split: option.splits)
    from "2.IH"[OF True refl refl fe] have r2: "r2 = Returns ()" and fr: "freezes ?h1 h2"
      by simp_all
    from "2.prems" True fe r2 have "r = Returns obj" "h' = h2"
      by (simp_all add: Let_def)
    with fr freezes_trans[OF freezes_Object_freeze] show ?thesis by blast
  qed
next
  case (3 n obj isF h)
  then show ?case by (simp add: freezes_refl)
next
  case (4 n obj isF pk rest h)
  note [simp del] = deepFreeze_forEach.simps(2)
  have tr: "traversed isF pk = (if isF
         then pk \<noteq> Name ''caller'' \<and> pk \<noteq> Name ''callee'' \<and> pk \<noteq> Name ''arguments''
         else True)" by (simp add: traversed_def)
  show ?case
  proof (cases "hasOwnProperty h obj pk \<and> traversed isF pk")
    case False
    with "4.prems" have "deepFreeze_forEach n obj isF rest h = Some (r2, h2)"
      by (simp add: forEach_skip)
    from "4.IH"(4)[OF False[unfolded tr] this "4.prems"(2)] show ?thesis .
  next
    case True
    from Get_no_throw[OF "4.prems"(2)] True obtain pv where g: "Get h obj pk = Returns pv" by blast
    have rc: "unfrozenObjectValue h pv = (pv \<noteq> VNull \<and> (typeof h pv = T_object \<or> typeof h pv = T_function) \<and>
               \<not> Object_isFrozen h pv)" by (simp add: unfrozenObjectValue_def)
    show ?thesis
    proof (cases "unfrozenObjectValue h pv")
      case False
      with "4.prems" True g have "deepFreeze_forEach n obj isF rest h = Some (r2, h2)"
        by (simp add: forEach_pass)
      from "4.IH"(3)[OF True[unfolded tr] g False[unfolded rc] this "4.prems"(2)] show ?thesis .
    next
      case rec: True
      from "4.prems"(1) True g rec obtain r1 h1 where
        d: "deepFreeze n pv h = Some (r1, h1)"
        by (auto simp: forEach_recurse split: option.splits)
      from "4.IH"(1)[OF True[unfolded tr] g rec[unfolded rc] d] have r1: "r1 = Returns pv" and f1: "freezes h h1" by simp_all
      from "4.prems"(1) True g rec d r1
      have fe: "deepFreeze_forEach n obj isF rest h1 = Some (r2, h2)" by (simp add: forEach_recurse)
      have "isF = (typeof h1 obj = T_function)" using "4.prems"(2) f1 by (simp add: freezes_typeof)
      from "4.IH"(2)[OF True[unfolded tr] g rec[unfolded rc] d[unfolded r1] refl refl fe this]
      have "r2 = Returns () \<and> freezes h1 h2" by simp
      with f1 show ?thesis by (blast intro: freezes_trans)
    qed
  qed
qed

lemma deepFreeze_run_induct:
  fixes P :: "jsval \<Rightarrow> heap \<Rightarrow> heap \<Rightarrow> bool"
    and Q :: "jsval \<Rightarrow> bool \<Rightarrow> key list \<Rightarrow> heap \<Rightarrow> heap \<Rightarrow> bool"
  assumes falsy: "\<And>obj h. \<not> truthy obj \<Longrightarrow> P obj h h"
    and top: "\<And>obj h h'. truthy obj \<Longrightarrow>
          Q obj (typeof (Object_freeze obj h) obj = T_function)
            (getOwnPropertyNames (Object_freeze obj h) obj) (Object_freeze obj h) h' \<Longrightarrow>
          freezes (Object_freeze obj h) h' \<Longrightarrow> P obj h h'"
    and nil: "\<And>obj isF h. Q obj isF [] h h"
    and skip: "\<And>obj isF k rest h h'. \<not> (hasOwnProperty h obj k \<and> traversed isF k) \<Longrightarrow>
          Q obj isF rest h h' \<Longrightarrow> freezes h h' \<Longrightarrow> Q obj isF (k # rest) h h'"
    and pass: "\<And>obj isF k rest h h' pv. hasOwnProperty h obj k \<Longrightarrow> traversed isF k \<Longrightarrow>
          Get h obj k = Returns pv \<Longrightarrow> \<not> unfrozenObjectValue h pv \<Longrightarrow>
          Q obj isF rest h h' \<Longrightarrow> freezes h h' \<Longrightarrow> Q obj isF (k # rest) h h'"
    and recurse: "\<And>obj isF k rest h h1 h' pv. hasOwnProperty h obj k \<Longrightarrow> traversed isF k \<Longrightarrow>
          Get h obj k = Returns pv \<Longrightarrow> unfrozenObjectValue h pv \<Longrightarrow>
          P pv h h1 \<Longrightarrow> freezes h h1 \<Longrightarrow> Q obj isF rest h1 h' \<Longrightarrow> freezes h1 h' \<Longrightarrow>
          Q obj isF (k # rest) h h'"
  shows "deepFreeze n obj h = Some (r, h') \<Longrightarrow> P obj h h'"
    and "deepFreeze_forEach n obj isF ps h = Some (r2, h2) \<Longrightarrow>
         isF = (typeof h obj = T_function) \<Longrightarrow> Q obj isF ps h h2"
proof (induction n obj h and n obj isF ps h arbitrary: r h' and r2 h2
       rule: deepFreeze_deepFreeze_forEach.induct)
  case (1 obj h)
  then show ?case by simp
next
  case (2 n obj h)
  show ?case
  proof (cases "truthy obj")
    case False
    with "2.prems" falsy show ?thesis by simp
  next
    case True
    let ?h1 = "Object_freeze obj h"
    let ?f = "typeof ?h1 obj = T_function"
    from "2.prems" True obtain r2 h2 where
      fe: "deepFreeze_forEach n obj ?f (getOwnPropertyNames ?h1 obj) ?h1 = Some (r2, h2)"
      by (auto simp: Let_def split: option.splits)
    from deepFreeze_shape(2)[OF fe refl] have r2: "r2 = Returns ()" and fr: "freezes ?h1 h2"
      by simp_all
    from "2.prems" True fe r2 have h': "h' = h2" by (simp add: Let_def)
    from "2.IH"[OF True refl refl fe refl] have "Q obj ?f (getOwnPropertyNames ?h1 obj) ?h1 h2" .
    from top[OF True this fr] h' show ?thesis by simp
  qed
next
  case (3 n obj isF h)
  then show ?case by (simp add: nil)
next
  case (4 n obj isF pk rest h)
  note [simp del] = deepFreeze_forEach.simps(2)
  have tr: "traversed isF pk = (if isF
         then pk \<noteq> Name ''caller'' \<and> pk \<noteq> Name ''callee'' \<and> pk \<noteq> Name ''arguments''
         else True)" by (simp add: traversed_def)
  show ?case
  proof (cases "hasOwnProperty h obj pk \<and> traversed isF pk")
    case False
    with "4.prems" have fe: "deepFreeze_forEach n obj isF rest h = Some (r2, h2)"
      by (simp add: forEach_skip)
    from "4.IH"(4)[OF False[unfolded tr] this "4.prems"(2)] deepFreeze_shape(2)[OF fe "4.prems"(2)]
    show ?thesis using skip[OF False] by simp
  next
    case True
    from Get_no_throw[OF "4.prems"(2)] True obtain pv where g: "Get h obj pk = Returns pv" by blast
    have rc: "unfrozenObjectValue h pv = (pv \<noteq> VNull \<and> (typeof h pv = T_object \<or> typeof h pv = T_function) \<and>
               \<not> Object_isFrozen h pv)" by (simp add: unfrozenObjectValue_def)
    show ?thesis
    proof (cases "unfrozenObjectValue h pv")
      case False
      with "4.prems" True g have fe: "deepFreeze_forEach n obj isF rest h = Some (r2, h2)"
        by (simp add: forEach_pass)
      from "4.IH"(3)[OF True[unfolded tr] g False[unfolded rc] this "4.prems"(2)]
        deepFreeze_shape(2)[OF fe "4.prems"(2)]
      show ?thesis using pass[OF _ _ g False] True by simp
    next
      case rec: True
      from "4.prems"(1) True g rec obtain r1 h1 where
        d: "deepFreeze n pv h = Some (r1, h1)"
        by (auto simp: forEach_recurse split: option.splits)
      from deepFreeze_shape(1)[OF d] have r1: "r1 = Returns pv" and f1: "freezes h h1" by simp_all
      from "4.IH"(1)[OF True[unfolded tr] g rec[unfolded rc] d] have p1: "P pv h h1" .
      from "4.prems"(1) True g rec d r1
      have fe: "deepFreeze_forEach n obj isF rest h1 = Some (r2, h2)" by (simp add: forEach_recurse)
      have isF1: "isF = (typeof h1 obj = T_function)" using "4.prems"(2) f1 by (simp add: freezes_typeof)
      from "4.IH"(2)[OF True[unfolded tr] g rec[unfolded rc] d[unfolded r1] refl refl fe isF1]
      have q2: "Q obj isF rest h1 h2" .
      from deepFreeze_shape(2)[OF fe isF1] have f2: "freezes h1 h2" by simp
      from recurse[OF _ _ g rec p1 f1 q2 f2] True show ?thesis by simp
    qed
  qed
qed

lemma freezes_traversedEdge: "freezes h h' \<Longrightarrow> traversedEdge h' a c = traversedEdge h a c"
  by (simp add: traversedEdge_def freezes_hasOwn freezes_typeof freezes_Get)

lemma freezes_childrenFrozen: "freezes h h' \<Longrightarrow> childrenFrozen h a \<Longrightarrow> childrenFrozen h' a"
  by (auto simp: childrenFrozen_def freezes_traversedEdge intro: freezes_isFrozen)

lemma newlyFrozen_split:
  "newlyFrozen h h2 a \<Longrightarrow> newlyFrozen h h1 a \<or> newlyFrozen h1 h2 a"
  by (auto simp: newlyFrozen_def)

lemma isFrozen_Object_freeze: "Object_isFrozen (Object_freeze obj h) obj"
  by (cases obj) (simp_all add: Object_isFrozen_def Object_freeze_def frozenObject_freezeObject)

lemma isFrozen_Object_freeze_other:
  "obj \<noteq> VRef a \<Longrightarrow> Object_isFrozen (Object_freeze obj h) (VRef a) = Object_isFrozen h (VRef a)"
  by (cases obj) (auto simp: Object_isFrozen_def Object_freeze_def)

lemma not_unfrozenObjectValue_Ref:
  "\<not> unfrozenObjectValue h (VRef c) \<Longrightarrow> Object_isFrozen h (VRef c)"
  by (auto simp: unfrozenObjectValue_def typeof_def split: kind.splits if_splits)

lemma deepFreeze_frozenAfter:
  assumes run: "deepFreeze n obj h = Some (r, h')"
  shows "frozenAfter obj h h'"
proof (rule deepFreeze_run_induct(1)[where P = frozenAfter and Q = visitedAfter, OF _ _ _ _ _ _ run])
  fix obj :: jsval and h :: heap
  assume "\<not> truthy obj"
  then show "frozenAfter obj h h"
    by (cases obj) (auto simp: frozenAfter_def newlyFrozen_def truthy_def Object_isFrozen_def)
next
  fix obj h h'
  let ?h1 = "Object_freeze obj h"
  assume v: "visitedAfter obj (typeof ?h1 obj = T_function) (getOwnPropertyNames ?h1 obj) ?h1 h'"
    and f: "freezes ?h1 h'"
  have fr: "Object_isFrozen h' obj" using f isFrozen_Object_freeze by (rule freezes_isFrozen)
  have own: "childrenFrozen h' a" if "obj = VRef a" for a
    unfolding childrenFrozen_def
  proof (intro allI impI)
    fix c assume "traversedEdge h' a c"
    then have "traversedEdge ?h1 a c" using f by (simp add: freezes_traversedEdge)
    then obtain k where k: "hasOwnProperty ?h1 (VRef a) k"
        "traversed (typeof ?h1 (VRef a) = T_function) k"
        "Get ?h1 (VRef a) k = Returns (VRef c)"
      by (auto simp: traversedEdge_def)
    with v that show "Object_isFrozen h' (VRef c)"
      by (auto simp: visitedAfter_def hasOwnProperty_def)
  qed
  have "childrenFrozen h' a" if n: "newlyFrozen h h' a" for a
  proof (cases "obj = VRef a")
    case True
    then show ?thesis by (rule own)
  next
    case False
    with n have "newlyFrozen ?h1 h' a" by (simp add: newlyFrozen_def isFrozen_Object_freeze_other)
    with v show ?thesis by (simp add: visitedAfter_def)
  qed
  with fr own show "frozenAfter obj h h'" by (simp add: frozenAfter_def)
next
  fix obj isF h
  show "visitedAfter obj isF [] h h" by (simp add: visitedAfter_def newlyFrozen_def)
next
  fix obj isF k rest h h'
  assume "\<not> (hasOwnProperty h obj k \<and> traversed isF k)" "visitedAfter obj isF rest h h'"
  then show "visitedAfter obj isF (k # rest) h h'" by (auto simp: visitedAfter_def)
next
  fix obj isF k rest h h' pv
  assume "Get h obj k = Returns pv" "\<not> unfrozenObjectValue h pv"
    "visitedAfter obj isF rest h h'" "freezes h h'"
  then show "visitedAfter obj isF (k # rest) h h'"
    by (auto simp: visitedAfter_def dest!: not_unfrozenObjectValue_Ref intro: freezes_isFrozen)
next
  fix obj isF k rest h h1 h' pv
  assume g: "Get h obj k = Returns pv" and p: "frozenAfter pv h h1" and f1: "freezes h h1"
    and q: "visitedAfter obj isF rest h1 h'" and f2: "freezes h1 h'"
  have a: "childrenFrozen h' a" if "newlyFrozen h h' a" for a
    using newlyFrozen_split[OF that, of h1]
  proof
    assume "newlyFrozen h h1 a"
    with p have "childrenFrozen h1 a" by (simp add: frozenAfter_def)
    with f2 show ?thesis by (rule freezes_childrenFrozen)
  next
    assume "newlyFrozen h1 h' a"
    with q show ?thesis by (simp add: visitedAfter_def)
  qed
  have b: "Object_isFrozen h' (VRef c)"
    if "k' \<in> set (k # rest)" "hasOwnProperty h obj k'" "traversed isF k'" "Get h obj k' = Returns (VRef c)"
    for k' c
  proof (cases "k' = k")
    case True
    with that g have "pv = VRef c" by simp
    with p have "Object_isFrozen h1 (VRef c)" by (simp add: frozenAfter_def)
    with f2 show ?thesis by (rule freezes_isFrozen)
  next
    case False
    with that have "k' \<in> set rest" by simp
    moreover from that f1 have "hasOwnProperty h1 obj k'" "Get h1 obj k' = Returns (VRef c)"
      by (simp_all add: freezes_hasOwn freezes_Get)
    ultimately show ?thesis using q that(3) by (auto simp: visitedAfter_def)
  qed
  from a b show "visitedAfter obj isF (k # rest) h h'" unfolding visitedAfter_def by blast
qed

lemma deepFreeze_freezeReach:
  assumes run: "deepFreeze n v h = Some (r, h')" and reach: "freezeReach h v a"
  shows "Object_isFrozen h' (VRef a)"
  using reach
proof (induction rule: freezeReach.induct)
  case (root a)
  with deepFreeze_frozenAfter[OF run] show ?case by (simp add: frozenAfter_def)
next
  case (step a c)
  from deepFreeze_shape(1)[OF run] have f: "freezes h h'" by simp
  from step.hyps(2) step.IH have "childrenFrozen h' a"
    using deepFreeze_frozenAfter[OF run] by (auto simp: frozenAfter_def newlyFrozen_def)
  moreover from step.hyps(3) f have "traversedEdge h' a c" by (simp add: freezes_traversedEdge)
  ultimately show ?case by (simp add: childrenFrozen_def)
qed

lemma finite_unfrozen: "finite (unfrozen h)"
  by (simp add: unfrozen_def)

lemma card_unfrozen_le: "card (unfrozen h) \<le> length h"
proof -
  have "unfrozen h \<subseteq> {..<length h}" by (auto simp: unfrozen_def)
  then have "card (unfrozen h) \<le> card {..<length h}" by (intro card_mono) simp_all
  then show ?thesis by simp
qed

lemma freezes_unfrozen: "freezes h h' \<Longrightarrow> unfrozen h' \<subseteq> unfrozen h"
  by (auto simp: unfrozen_def freezes_length dest: freezes_frozenObject)

lemma freezes_card_unfrozen: "freezes h h' \<Longrightarrow> card (unfrozen h') \<le> card (unfrozen h)"
  by (intro card_mono finite_unfrozen freezes_unfrozen)

lemma unfrozen_Object_freeze:
  "unfrozenObjectValue h pv \<Longrightarrow> card (unfrozen (Object_freeze pv h)) < card (unfrozen h)"
proof -
  assume u: "unfrozenObjectValue h pv"
  then obtain a where a: "pv = VRef a" "a < length h" "\<not> frozenObject (h ! a)"
    by (cases pv) (auto simp: unfrozenObjectValue_def Object_isFrozen_def typeof_def split: if_splits)
  then have "unfrozen (Object_freeze pv h) \<subseteq> unfrozen h - {a}"
    by (auto simp: unfrozen_def Object_freeze_def nth_list_update frozenObject_freezeObject)
  moreover have "a \<in> unfrozen h" using a by (simp add: unfrozen_def)
  ultimately show ?thesis
    by (metis card_Diff1_less card_mono finite_Diff finite_unfrozen le_less_trans)
qed

lemma deepFreeze_enough_fuel:
  "card (unfrozen (Object_freeze obj h)) < n \<Longrightarrow> \<exists>res. deepFreeze n obj h = Some res"
  "card (unfrozen h) \<le> n \<Longrightarrow> isF = (typeof h obj = T_function) \<Longrightarrow>
     \<exists>res. deepFreeze_forEach n obj isF ps h = Some res"
proof (induction n obj h and n obj isF ps h
       rule: deepFreeze_deepFreeze_forEach.induct)
  case (1 obj h)
  then show ?case by simp
next
  case (2 n obj h)
  show ?case
  proof (cases "truthy obj")
    case False
    then show ?thesis by simp
  next
    case True
    from "2.prems" have "card (unfrozen (Object_freeze obj h)) \<le> n" by simp
    from "2.IH"[OF True refl refl this refl] obtain r2 h2 where
      "deepFreeze_forEach n obj (typeof (Object_freeze obj h) obj = T_function)
         (getOwnPropertyNames (Object_freeze obj h) obj) (Object_freeze obj h) = Some (r2, h2)"
      by auto
    with True show ?thesis by (cases r2) (simp_all add: Let_def)
  qed
next
  case (3 n obj isF h)
  then show ?case by simp
next
  case (4 n obj isF pk rest h)
  note [simp del] = deepFreeze_forEach.simps(2)
  have tr: "traversed isF pk = (if isF
         then pk \<noteq> Name ''caller'' \<and> pk \<noteq> Name ''callee'' \<and> pk \<noteq> Name ''arguments''
         else True)" by (simp add: traversed_def)
  show ?case
  proof (cases "hasOwnProperty h obj pk \<and> traversed isF pk")
    case False
    from "4.IH"(4)[OF False[unfolded tr] "4.prems"] show ?thesis
      by (simp add: forEach_skip[OF False])
  next
    case True
    from Get_no_throw[OF "4.prems"(2)] True obtain pv where g: "Get h obj pk = Returns pv" by blast
    have rc: "unfrozenObjectValue h pv = (pv \<noteq> VNull \<and> (typeof h pv = T_object \<or> typeof h pv = T_function) \<and>
               \<not> Object_isFrozen h pv)" by (simp add: unfrozenObjectValue_def)
    show ?thesis
    proof (cases "unfrozenObjectValue h pv")
      case False
      from "4.IH"(3)[OF True[unfolded tr] g False[unfolded rc] "4.prems"] True g False
      show ?thesis by (simp add: forEach_pass)
    next
      case rec: True
      from unfrozen_Object_freeze[OF rec] "4.prems"(1)
      have "card (unfrozen (Object_freeze pv h)) < n" by simp
      from "4.IH"(1)[OF True[unfolded tr] g rec[unfolded rc] this] obtain r1 h1 where
        d: "deepFreeze n pv h = Some (r1, h1)" by auto
      from deepFreeze_shape(1)[OF d] have r1: "r1 = Returns pv" and f1: "freezes h h1" by simp_all
      have c1: "card (unfrozen h1) \<le> n" using freezes_card_unfrozen[OF f1] "4.prems"(1) by simp
      have isF1: "isF = (typeof h1 obj = T_function)" using "4.prems"(2) f1 by (simp add: freezes_typeof)
      from "4.IH"(2)[OF True[unfolded tr] g rec[unfolded rc] d[unfolded r1] refl refl c1 isF1]
      show ?thesis using True g rec d r1 by (simp add: forEach_recurse)
    qed
  qed
qed

lemma deepFreeze_terminates: "\<exists>h'. deepFreeze (Suc (length h)) obj h = Some (Returns obj, h')"
proof -
  have "card (unfrozen (Object_freeze obj h)) \<le> length (Object_freeze obj h)"
    by (rule card_unfrozen_le)
  also have "\<dots> = length h" using freezes_Object_freeze by (rule freezes_length)
  finally have "card (unfrozen (Object_freeze obj h)) < Suc (length h)" by simp
  from deepFreeze_enough_fuel(1)[OF this] obtain r h' where
    d: "deepFreeze (Suc (length h)) obj h = Some (r, h')" by auto
  with deepFreeze_shape(1)[OF d] show ?thesis by simp
qed

lemma deepFreeze_fuel_mono:
  "deepFreeze n obj h = Some res \<Longrightarrow> deepFreeze (n + m) obj h = Some res"
  "deepFreeze_forEach n obj isF ps h = Some res2 \<Longrightarrow> deepFreeze_forEach (n + m) obj isF ps h = Some res2"
proof (induction n obj h and n obj isF ps h arbitrary: res and res2
       rule: deepFreeze_deepFreeze_forEach.induct)
  case (1 obj h)
  then show ?case by simp
next
  case (2 n obj h)
  then show ?case
    by (auto simp: Let_def split: option.splits outcome.splits prod.splits if_splits)
next
  case (3 n obj isF h)
  then show ?case by simp
next
  case (4 n obj isF pk rest h)
  note [simp del] = deepFreeze_forEach.simps(2)
  have tr: "traversed isF pk = (if isF
         then pk \<noteq> Name ''caller'' \<and> pk \<noteq> Name ''callee'' \<and> pk \<noteq> Name ''arguments''
         else True)" by (simp add: traversed_def)
  show ?case
  proof (cases "hasOwnProperty h obj pk \<and> traversed isF pk")
    case False
    with "4.prems" have "deepFreeze_forEach n obj isF rest h = Some res2"
      by (simp add: forEach_skip)
    from "4.IH"(4)[OF False[unfolded tr] this] show ?thesis
      by (simp add: forEach_skip[OF False])
  next
    case True
    show ?thesis
    proof (cases "Get h obj pk")
      case (Throws e)
      with True "4.prems" show ?thesis by (simp add: forEach_throw)
    next
      case g: (Returns pv)
      have rc: "unfrozenObjectValue h pv = (pv \<noteq> VNull \<and> (typeof h pv = T_object \<or> typeof h pv = T_function) \<and>
               \<not> Object_isFrozen h pv)" by (simp add: unfrozenObjectValue_def)
      show ?thesis
      proof (cases "unfrozenObjectValue h pv")
        case False
        with "4.prems" True g have "deepFreeze_forEach n obj isF rest h = Some res2"
          by (simp add: forEach_pass)
        from "4.IH"(3)[OF True[unfolded tr] g False[unfolded rc] this] True g False
        show ?thesis by (simp add: forEach_pass)
      next
        case rec: True
        from "4.prems" True g rec obtain r1 h1 where
          d: "deepFreeze n pv h = Some (r1, h1)"
          by (auto simp: forEach_recurse split: option.splits)
        from "4.IH"(1)[OF True[unfolded tr] g rec[unfolded rc] d]
        have d': "deepFreeze (n + m) pv h = Some (r1, h1)" .
        show ?thesis
        proof (cases r1)
          case (Throws e)
          with "4.prems" True g rec d d' show ?thesis by (simp add: forEach_recurse)
        next
          case (Returns x)
          with "4.prems" True g rec d
          have fe: "deepFreeze_forEach n obj isF rest h1 = Some res2" by (simp add: forEach_recurse)
          from "4.IH"(2)[OF True[unfolded tr] g rec[unfolded rc] d[unfolded Returns] refl refl fe]
          show ?thesis using True g rec d' Returns by (simp add: forEach_recurse)
        qed
      qed
    qed
  qed
qed

lemma Object_freeze_frozen: "Object_isFrozen h obj \<Longrightarrow> Object_freeze obj h = h"
  by (cases obj) (auto simp: Object_isFrozen_def Object_freeze_def freezeObject_frozen)

lemma forEach_nothing_to_do:
  assumes "isF = (typeof h obj = T_function)"
    and "\<And>k pv. k \<in> set ps \<Longrightarrow> hasOwnProperty h obj k \<Longrightarrow> traversed isF k \<Longrightarrow>
           Get h obj k = Returns pv \<Longrightarrow> \<not> unfrozenObjectValue h pv"
  shows "deepFreeze_forEach n obj isF ps h = Some (Returns (), h)"
  using assms(2)
proof (induction ps)
  case Nil
  show ?case by simp
next
  case (Cons k rest)
  note [simp del] = deepFreeze_forEach.simps(2)
  have IH: "deepFreeze_forEach n obj isF rest h = Some (Returns (), h)"
  proof (rule Cons.IH)
    fix k' pv
    assume "k' \<in> set rest" "hasOwnProperty h obj k'" "traversed isF k'" "Get h obj k' = Returns pv"
    then show "\<not> unfrozenObjectValue h pv" using Cons.prems[of k' pv] by simp
  qed
  show ?case
  proof (cases "hasOwnProperty h obj k \<and> traversed isF k")
    case False
    then show ?thesis using IH by (simp add: forEach_skip)
  next
    case True
    with Get_no_throw[OF assms(1)] obtain pv where g: "Get h obj k = Returns pv" by blast
    with True Cons.prems[of k pv] have "\<not> unfrozenObjectValue h pv" by simp
    with True g IH show ?thesis by (simp add: forEach_pass)
  qed
qed

lemma unfrozenObjectValue_Ref: "unfrozenObjectValue h pv \<Longrightarrow> \<exists>c. pv = VRef c \<and> \<not> Object_isFrozen h pv"
  by (cases pv) (auto simp: unfrozenObjectValue_def typeof_def)

lemma deepFreeze_children_frozen:
  assumes "\<And>k c. hasOwnProperty h obj k \<Longrightarrow> traversed (typeof h obj = T_function) k \<Longrightarrow>
             Get h obj k = Returns (VRef c) \<Longrightarrow> Object_isFrozen h (VRef c)"
  shows "deepFreeze (Suc n) obj h = Some (Returns obj, Object_freeze obj h)"
proof (cases "truthy obj")
  case False
  then have "Object_freeze obj h = h" by (cases obj) (simp_all add: truthy_def Object_freeze_def)
  with False show ?thesis by simp
next
  case True
  let ?h1 = "Object_freeze obj h"
  have f: "freezes h ?h1" by (rule freezes_Object_freeze)
  have "deepFreeze_forEach n obj (typeof ?h1 obj = T_function) (getOwnPropertyNames ?h1 obj) ?h1
        = Some (Returns (), ?h1)"
  proof (rule forEach_nothing_to_do[OF refl])
    fix k pv
    assume k: "hasOwnProperty ?h1 obj k" "traversed (typeof ?h1 obj = T_function) k"
      "Get ?h1 obj k = Returns pv"
    show "\<not> unfrozenObjectValue ?h1 pv"
    proof
      assume "unfrozenObjectValue ?h1 pv"
      then obtain c where c: "pv = VRef c" "\<not> Object_isFrozen ?h1 pv"
        by (auto dest: unfrozenObjectValue_Ref)
      from k c f have "Object_isFrozen h (VRef c)"
        by (intro assms[of k c]) (simp_all add: freezes_hasOwn freezes_typeof freezes_Get)
      with f c show False by (auto dest: freezes_isFrozen)
    qed
  qed
  with True show ?thesis by (simp add: Let_def)
qed

lemma deepFreeze_again:
  assumes run: "deepFreeze n obj h = Some (r, h')"
  shows "deepFreeze (Suc m) obj h' = Some (Returns obj, h')"
proof -
  from deepFreeze_frozenAfter[OF run] have fr: "Object_isFrozen h' obj"
    and ch: "\<And>a. obj = VRef a \<Longrightarrow> childrenFrozen h' a"
    by (simp_all add: frozenAfter_def)
  have "deepFreeze (Suc m) obj h' = Some (Returns obj, Object_freeze obj h')"
  proof (rule deepFreeze_children_frozen)
    fix k c
    assume k: "hasOwnProperty h' obj k" "traversed (typeof h' obj = T_function) k"
      "Get h' obj k = Returns (VRef c)"
    then obtain a where a: "obj = VRef a"
      by (cases obj) (simp_all add: hasOwnProperty_def getOwnPropertyNames_def)
    with k have "traversedEdge h' a c" by (auto simp: traversedEdge_def)
    with ch[OF a] show "Object_isFrozen h' (VRef c)" by (simp add: childrenFrozen_def)
  qed
  with fr show ?thesis by (simp add: Object_freeze_frozen)
qed

lemma forEach_reserved_filtered:
  "deepFreeze_forEach n obj True ps h =
   deepFreeze_forEach n obj True
     (filter (\<lambda>k. k \<noteq> Name ''caller'' \<and> k \<noteq> Name ''callee'' \<and> k \<noteq> Name ''arguments'') ps) h"
  by (induction ps arbitrary: h) (auto split: option.splits outcome.splits prod.splits)

lemma putProperty_readonly:
  "list_all (\<lambda>(k, p). \<not> writable p \<and> \<not> configurable p) ps \<Longrightarrow> putProperty k v ps = ps"
  by (induction ps) auto

lemma putObject_frozen: "frozenObject ob \<Longrightarrow> putObject k v ob = ob"
  by (cases ob) (auto simp: putObject_def frozenObject_def putProperty_readonly)

lemma deleteObject_frozen: "frozenObject ob \<Longrightarrow> deleteObject k ob = ob"
proof (cases ob)
  case (JSObject kd ex ps)
  assume "frozenObject ob"
  with JSObject have "filter (\<lambda>(k', p). \<not> (k' = k \<and> configurable p)) ps = ps"
    by (auto simp: frozenObject_def list_all_iff intro!: filter_True)
  with JSObject show ?thesis by (simp add: deleteObject_def)
qed

lemma Put_frozen: "Object_isFrozen h obj \<Longrightarrow> Put obj k v h = h"
  by (cases obj) (auto simp: Object_isFrozen_def Put_def putObject_frozen)

lemma Delete_frozen: "Object_isFrozen h obj \<Longrightarrow> Delete obj k h = h"
  by (cases obj) (auto simp: Object_isFrozen_def Delete_def deleteObject_frozen)

subsection \<open>The claims about the deep freezer\<close>

text \<open>
  Claim C2, amended. When \<open>deepFreeze v\<close> returns, \<open>v\<close> reports itself frozen, and so
  does every object reached from \<open>v\<close> along traversed own properties (every own
  property, but for \<open>caller\<close>, \<open>callee\<close> and \<open>arguments\<close> of a callable) through objects
  that were not frozen before the call; a write to or a delete on any of them leaves the
  heap as it is. Nothing is said of what lies behind an object that was frozen before
  the call.
\<close>

theorem deepFreeze_freezes_reach:
  assumes "deepFreeze n v h = Some (r, h')"
  shows "Object_isFrozen h' v \<and>
    (\<forall>a. freezeReach h v a \<longrightarrow> Object_isFrozen h' (VRef a) \<and>
       (\<forall>k w. Put (VRef a) k w h' = h' \<and> Delete (VRef a) k h' = h'))"
proof -
  from deepFreeze_frozenAfter[OF assms] have "Object_isFrozen h' v" by (simp add: frozenAfter_def)
  moreover have "Object_isFrozen h' (VRef a)" if "freezeReach h v a" for a
    using assms that by (rule deepFreeze_freezeReach)
  ultimately show ?thesis by (simp add: Put_frozen Delete_frozen)
qed

text \<open>
  The amended claim C2 on the cyclic heap: the shared array is reached through the
  unfrozen child and comes out frozen.
\<close>

theorem deepFreeze_freezes_reach_witness:
  "deepFreeze 4 (VRef 0) heap_cyclic = Some (Returns (VRef 0), heap_cyclic_after) \<and>
   freezeReach heap_cyclic (VRef 0) 2 \<and>
   Object_isFrozen heap_cyclic_after (VRef 2) \<and>
   Put (VRef 2) (Index 0) (VNum 7) heap_cyclic_after = heap_cyclic_after \<and>
   Delete (VRef 2) (Index 0) heap_cyclic_after = heap_cyclic_after"
proof -
  have run: "deepFreeze 4 (VRef 0) heap_cyclic = Some (Returns (VRef 0), heap_cyclic_after)"
    by code_simp
  have r0: "freezeReach heap_cyclic (VRef 0) 0" by (rule freezeReach.root) simp
  have e01: "traversedEdge heap_cyclic 0 1"
    unfolding traversedEdge_def
    by (rule exI[of _ "Name ''child''"]) code_simp
  have r1: "freezeReach heap_cyclic (VRef 0) 1"
    by (rule freezeReach.step[OF r0 _ e01]) simp
  have e12: "traversedEdge heap_cyclic 1 2"
    unfolding traversedEdge_def
    by (rule exI[of _ "Name ''shared''"]) code_simp
  have u1: "\<not> Object_isFrozen heap_cyclic (VRef 1)" by code_simp
  from u1 have "VRef 0 = VRef 1 \<or> \<not> Object_isFrozen heap_cyclic (VRef 1)" by blast
  from freezeReach.step[OF r1 this e12]
  have r2: "freezeReach heap_cyclic (VRef 0) 2" .
  from deepFreeze_freezes_reach[OF run] r2 run show ?thesis by simp
qed

text \<open>
  Claim C2 as stated fails on \<open>heap_interior\<close>: the interior object is frozen before the
  call and its child is not; after \<open>deepFreeze\<close> the child is still reachable from the
  root through own properties, it is not frozen, and a write to it is observed.
\<close>

theorem deepFreeze_interior_frozen_counterexample:
  "Object_isFrozen heap_interior (VRef 1) \<and>
   \<not> Object_isFrozen heap_interior (VRef 2) \<and>
   deepFreeze 3 (VRef 0) heap_interior = Some (Returns (VRef 0), heap_interior_after) \<and>
   ownReach heap_interior_after (VRef 0) 2 \<and>
   \<not> Object_isFrozen heap_interior_after (VRef 2) \<and>
   Get (Put (VRef 2) (Name ''x'') (VNum 99) heap_interior_after) (VRef 2) (Name ''x'') = Returns (VNum 99)"
proof -
  have r0: "ownReach heap_interior_after (VRef 0) 0" by (rule own_root) simp
  have r1: "ownReach heap_interior_after (VRef 0) 1"
    by (rule own_step[OF r0, of "Name ''inner''"]) code_simp+
  have r2: "ownReach heap_interior_after (VRef 0) 2"
    by (rule own_step[OF r1, of "Name ''leaf''"]) code_simp+
  have "Object_isFrozen heap_interior (VRef 1)" by code_simp
  moreover have "\<not> Object_isFrozen heap_interior (VRef 2)" by code_simp
  moreover have "deepFreeze 3 (VRef 0) heap_interior = Some (Returns (VRef 0), heap_interior_after)"
    by code_simp
  moreover have "\<not> Object_isFrozen heap_interior_after (VRef 2)" by code_simp
  moreover have "Get (Put (VRef 2) (Name ''x'') (VNum 99) heap_interior_after) (VRef 2) (Name ''x'')
      = Returns (VNum 99)" by code_simp
  ultimately show ?thesis using r2 by simp
qed

text \<open>
  Claim C6. On every heap and value, cyclic or shared or not, \<open>deepFreeze\<close> returns
  within a recursion depth of the number of objects, and returns its argument; freezing
  the result again returns the same reference and leaves the heap as it is. A run that
  returns within some depth bound returns the same with any larger bound. In the
  iteration over the properties, a property that holds a frozen value is passed over
  without a recursive call.
\<close>

theorem deepFreeze_idempotent_cycle_safe:
  "(\<exists>h'. deepFreeze (Suc (length h)) v h = Some (Returns v, h') \<and>
         deepFreeze (Suc (length h')) v h' = Some (Returns v, h')) \<and>
   (deepFreeze n v h = Some res \<longrightarrow>
      fst res = Returns v \<and> deepFreeze (n + m) v h = Some res \<and>
      deepFreeze (Suc m) v (snd res) = Some (Returns v, snd res)) \<and>
   (Get hp obj k = Returns pv \<longrightarrow> Object_isFrozen hp pv \<longrightarrow>
      deepFreeze_forEach j obj isF (k # rest) hp = deepFreeze_forEach j obj isF rest hp)"
proof (intro conjI impI)
  from deepFreeze_terminates[of h v] obtain h' where
    d: "deepFreeze (Suc (length h)) v h = Some (Returns v, h')" by blast
  from deepFreeze_again[OF d] d
  show "\<exists>h'. deepFreeze (Suc (length h)) v h = Some (Returns v, h') \<and>
         deepFreeze (Suc (length h')) v h' = Some (Returns v, h')" by blast
next
  assume d: "deepFreeze n v h = Some res"
  then show "fst res = Returns v" using deepFreeze_shape(1)[of n v h "fst res" "snd res"] by simp
  from d show "deepFreeze (n + m) v h = Some res" by (rule deepFreeze_fuel_mono)
  from d show "deepFreeze (Suc m) v (snd res) = Some (Returns v, snd res)"
    using deepFreeze_again[of n v h "fst res" "snd res"] by simp
next
  assume g: "Get hp obj k = Returns pv" and fr: "Object_isFrozen hp pv"
  show "deepFreeze_forEach j obj isF (k # rest) hp = deepFreeze_forEach j obj isF rest hp"
  proof (cases "hasOwnProperty hp obj k \<and> traversed isF k")
    case True
    with g fr show ?thesis by (simp add: forEach_pass unfrozenObjectValue_def)
  next
    case False
    then show ?thesis by (rule forEach_skip)
  qed
qed

text \<open>
  Claim C6 on the cyclic heap, whose root refers to itself.
\<close>

theorem deepFreeze_idempotent_cycle_safe_witness:
  "deepFreeze 4 (VRef 0) heap_cyclic = Some (Returns (VRef 0), heap_cyclic_after) \<and>
   Get heap_cyclic (VRef 0) (Name ''self'') = Returns (VRef 0) \<and>
   deepFreeze 7 (VRef 0) heap_cyclic = Some (Returns (VRef 0), heap_cyclic_after) \<and>
   deepFreeze 4 (VRef 0) heap_cyclic_after = Some (Returns (VRef 0), heap_cyclic_after) \<and>
   Get heap_cyclic_after (VRef 0) (Name ''child'') = Returns (VRef 1) \<and>
   Object_isFrozen heap_cyclic_after (VRef 1) \<and>
   deepFreeze_forEach 0 (VRef 0) False [Name ''child'', Name ''shared''] heap_cyclic_after =
     deepFreeze_forEach 0 (VRef 0) False [Name ''shared''] heap_cyclic_after"
proof -
  have run: "deepFreeze 4 (VRef 0) heap_cyclic = Some (Returns (VRef 0), heap_cyclic_after)"
    by code_simp
  have g0: "Get heap_cyclic (VRef 0) (Name ''self'') = Returns (VRef 0)" by code_simp
  have g: "Get heap_cyclic_after (VRef 0) (Name ''child'') = Returns (VRef 1)" by code_simp
  have fr: "Object_isFrozen heap_cyclic_after (VRef 1)" by code_simp
  from deepFreeze_idempotent_cycle_safe[where h = heap_cyclic and v = "VRef 0" and n = 4
      and res = "(Returns (VRef 0), heap_cyclic_after)" and m = 3 and hp = heap_cyclic_after
      and obj = "VRef 0" and k = "Name ''child''" and pv = "VRef 1" and j = 0 and isF = False
      and rest = "[Name ''shared'']"]
  show ?thesis using run g g0 fr by simp
qed

lemma deepFreeze_child_frozen:
  assumes run: "deepFreeze n obj h = Some (r, h')"
    and own: "hasOwnProperty h obj k" and tr: "traversed (typeof h obj = T_function) k"
    and g: "Get h obj k = Returns (VRef c)"
  shows "Object_isFrozen h' (VRef c)"
proof -
  from own obtain a where a: "obj = VRef a"
    by (cases obj) (simp_all add: hasOwnProperty_def getOwnPropertyNames_def)
  from deepFreeze_shape(1)[OF run] have f: "freezes h h'" by simp
  from own tr g a have "traversedEdge h a c" by (auto simp: traversedEdge_def)
  with f have "traversedEdge h' a c" by (simp add: freezes_traversedEdge)
  moreover from deepFreeze_frozenAfter[OF run] a have "childrenFrozen h' a"
    by (simp add: frozenAfter_def)
  ultimately show ?thesis by (simp add: childrenFrozen_def)
qed

text \<open>
  Claim C7. \<open>deepFreeze\<close> never throws. On a callable the iteration over the property
  names does what it does on the names other than \<open>caller\<close>, \<open>callee\<close> and
  \<open>arguments\<close>, so that a callable with no other own property is frozen and nothing else
  is touched. On a value that is not callable every own property that holds an object
  is visited: the object is frozen when \<open>deepFreeze\<close> returns.
\<close>

theorem deepFreeze_skips_reserved:
  "deepFreeze n obj h \<noteq> Some (Throws e, h') \<and>
   deepFreeze_forEach j obj True ps hp =
     deepFreeze_forEach j obj True
       (filter (\<lambda>k. k \<noteq> Name ''caller'' \<and> k \<noteq> Name ''callee'' \<and> k \<noteq> Name ''arguments'') ps) hp \<and>
   (typeof h obj = T_function \<longrightarrow>
      (\<forall>k. hasOwnProperty h obj k \<longrightarrow>
           k = Name ''caller'' \<or> k = Name ''callee'' \<or> k = Name ''arguments'') \<longrightarrow>
      deepFreeze (Suc m) obj h = Some (Returns obj, Object_freeze obj h)) \<and>
   (typeof h obj \<noteq> T_function \<longrightarrow> deepFreeze n obj h = Some (r, h2) \<longrightarrow>
      hasOwnProperty h obj k \<longrightarrow> Get h obj k = Returns (VRef c) \<longrightarrow>
      Object_isFrozen h2 (VRef c))"
proof (intro conjI impI)
  show "deepFreeze n obj h \<noteq> Some (Throws e, h')"
    using deepFreeze_shape(1)[of n obj h "Throws e" h'] by auto
  show "deepFreeze_forEach j obj True ps hp =
     deepFreeze_forEach j obj True
       (filter (\<lambda>k. k \<noteq> Name ''caller'' \<and> k \<noteq> Name ''callee'' \<and> k \<noteq> Name ''arguments'') ps) hp"
    by (rule forEach_reserved_filtered)
next
  assume f: "typeof h obj = T_function"
    and r: "\<forall>k. hasOwnProperty h obj k \<longrightarrow>
           k = Name ''caller'' \<or> k = Name ''callee'' \<or> k = Name ''arguments''"
  show "deepFreeze (Suc m) obj h = Some (Returns obj, Object_freeze obj h)"
  proof (rule deepFreeze_children_frozen)
    fix k c
    assume "hasOwnProperty h obj k" "traversed (typeof h obj = T_function) k"
    with f r have False by (auto simp: traversed_def)
    then show "Object_isFrozen h (VRef c)" ..
  qed
next
  assume "typeof h obj \<noteq> T_function" "deepFreeze n obj h = Some (r, h2)"
    "hasOwnProperty h obj k" "Get h obj k = Returns (VRef c)"
  then show "Object_isFrozen h2 (VRef c)"
    by (intro deepFreeze_child_frozen[of n obj h r h2 k c]) (simp_all add: traversed_def)
qed

text \<open>
  Claim C7 on a function with the restricted properties, whose \<open>caller\<close> throws when
  read: \<open>deepFreeze\<close> returns, and the object under \<open>callee\<close> is left unfrozen. On a
  plain object with the same properties the object under \<open>callee\<close> is frozen.
\<close>

theorem deepFreeze_skips_reserved_witness:
  "Get (heap_function (KFunction True)) (VRef 0) (Name ''caller'') = Throws TypeError \<and>
   deepFreeze 3 (VRef 0) (heap_function (KFunction True)) =
     Some (Returns (VRef 0), heap_function_after (KFunction True) True) \<and>
   \<not> Object_isFrozen (heap_function_after (KFunction True) True) (VRef 1) \<and>
   deepFreeze_forEach 2 (VRef 0) True [Name ''arguments'', Name ''caller'', Name ''callee'', Name ''data'']
     (Object_freeze (VRef 0) (heap_function (KFunction True))) =
   deepFreeze_forEach 2 (VRef 0) True [Name ''data'']
     (Object_freeze (VRef 0) (heap_function (KFunction True))) \<and>
   deepFreeze 3 (VRef 0) (heap_function KObject) =
     Some (Returns (VRef 0), heap_function_after KObject False) \<and>
   Get (heap_function KObject) (VRef 0) (Name ''callee'') = Returns (VRef 1) \<and>
   Object_isFrozen (heap_function_after KObject False) (VRef 1)"
proof -
  have a: "Get (heap_function (KFunction True)) (VRef 0) (Name ''caller'') = Throws TypeError"
    by code_simp
  have b: "deepFreeze 3 (VRef 0) (heap_function (KFunction True)) =
     Some (Returns (VRef 0), heap_function_after (KFunction True) True)" by code_simp
  have c: "\<not> Object_isFrozen (heap_function_after (KFunction True) True) (VRef 1)" by code_simp
  have d: "deepFreeze 3 (VRef 0) (heap_function KObject) =
     Some (Returns (VRef 0), heap_function_after KObject False)" by code_simp
  have e: "Get (heap_function KObject) (VRef 0) (Name ''callee'') = Returns (VRef 1)" by code_simp
  have f: "typeof (heap_function KObject) (VRef 0) \<noteq> T_function" by code_simp
  have g: "hasOwnProperty (heap_function KObject) (VRef 0) (Name ''callee'')" by code_simp
  from deepFreeze_skips_reserved[where n = 3 and obj = "VRef 0" and h = "heap_function KObject"
      and r = "Returns (VRef 0)" and ?h2.0 = "heap_function_after KObject False"
      and k = "Name ''callee''" and c = 1 and j = 2
      and ps = "[Name ''arguments'', Name ''caller'', Name ''callee'', Name ''data'']"
      and hp = "Object_freeze (VRef 0) (heap_function (KFunction True))"]
  show ?thesis using a b c d e f g by simp
qed

section \<open>Properties of the options and of \<open>immutable\<close>\<close>

declare readSignal.simps [simp del]

lemma readSignal_append:
  "sig < length sigs \<Longrightarrow> readSignal n (sigs @ extra) sig h = readSignal n sigs sig h"
proof (induction n sigs sig h rule: readSignal.induct)
  case (1 n sigs sig h)
  note [simp del] = readSignal.simps
  show ?case
  proof (cases "sigs ! sig")
    case (WritableNode v eq)
    with "1.prems" show ?thesis
      by (simp add: readSignal.simps[of n sigs sig] readSignal.simps[of n "sigs @ extra" sig] nth_append)
  next
    case (ComputedDeepFreeze src)
    show ?thesis
    proof (cases "src < sig")
      case True
      with "1.prems" have "src < length sigs" by simp
      from "1.IH"[OF "1.prems" ComputedDeepFreeze True this]
      show ?thesis using "1.prems" ComputedDeepFreeze True
        by (simp add: readSignal.simps[of n sigs sig] readSignal.simps[of n "sigs @ extra" sig] nth_append)
    next
      case False
      with "1.prems" ComputedDeepFreeze show ?thesis
        by (simp add: readSignal.simps[of n sigs sig] readSignal.simps[of n "sigs @ extra" sig] nth_append)
    qed
  qed
qed

text \<open>
  Claim C8. The defaults are \<open>enableDeepFreezing = false\<close> and the production strategy
  \<open>naiveCloneAndMutate\<close>. In \<open>immutableSignal\<close> and in \<open>immutable\<close> an option given with the
  call decides, whatever the process-wide options say; the process-wide options are
  used when the option is absent.
\<close>

theorem options_defaults_and_precedence:
  "requiredEnableDeepFreezing (getDefaultImmutableSignalOptions w) = False \<and>
   requiredMutationProducerFn (getDefaultImmutableSignalOptions w) = naiveCloneAndMutate w \<and>
   (Option.bind options enableDeepFreezing = Some b \<longrightarrow>
      deepFreezeEnabled (fst (immutableSignal v options g sigs)) = b) \<and>
   (Option.bind options enableDeepFreezing = None \<longrightarrow>
      deepFreezeEnabled (fst (immutableSignal v options g sigs)) = requiredEnableDeepFreezing g) \<and>
   (Option.bind options mutationProducerFn = Some f \<longrightarrow>
      mutateFn (fst (immutableSignal v options g sigs)) = f) \<and>
   (Option.bind options mutationProducerFn = None \<longrightarrow>
      mutateFn (fst (immutableSignal v options g sigs)) = requiredMutationProducerFn g) \<and>
   (Option.bind foptions enableDeepFreezing = Some True \<longrightarrow>
      immutable sig foptions g sigs = computed_deepFreeze sig sigs) \<and>
   (Option.bind foptions enableDeepFreezing = Some False \<longrightarrow>
      immutable sig foptions g sigs = (sig, sigs)) \<and>
   (Option.bind foptions enableDeepFreezing = None \<longrightarrow>
      immutable sig foptions g sigs =
        (if requiredEnableDeepFreezing g then computed_deepFreeze sig sigs else (sig, sigs)))"
  by (simp add: getDefaultImmutableSignalOptions_def immutableSignal_def immutable_def nullish_def
      signal_def Let_def)

text \<open>
  Claim C8 on calls with and without options, against process-wide options that say
  the opposite.
\<close>

theorem options_defaults_and_precedence_witness:
  "deepFreezeEnabled (fst (immutableSignal (VRef 0) (Some options_freezing)
      (getDefaultImmutableSignalOptions (Window True)) [])) = True \<and>
   mutateFn (fst (immutableSignal (VRef 0) (Some options_freezing)
      (getDefaultImmutableSignalOptions (Window True)) [])) = naiveCloneAndMutate (Window True) \<and>
   deepFreezeEnabled (fst (immutableSignal (VRef 0) None
      \<lparr> requiredMutationProducerFn = producer_example, requiredEnableDeepFreezing = True \<rparr> [])) = True \<and>
   mutateFn (fst (immutableSignal (VRef 0) None
      \<lparr> requiredMutationProducerFn = producer_example, requiredEnableDeepFreezing = True \<rparr> []))
      = producer_example \<and>
   mutateFn (fst (immutableSignal (VRef 0)
      (Some \<lparr> enableDeepFreezing = Some False, mutationProducerFn = Some producer_example, equal_opt = None \<rparr>)
      \<lparr> requiredMutationProducerFn = naiveCloneAndMutate (Window True), requiredEnableDeepFreezing = True \<rparr> []))
      = producer_example \<and>
   immutable 0 (Some \<lparr> enableDeepFreezing = Some False \<rparr>)
      \<lparr> requiredMutationProducerFn = producer_example, requiredEnableDeepFreezing = True \<rparr>
      [WritableNode (VRef 0) (=)] = (0, [WritableNode (VRef 0) (=)]) \<and>
   immutable 0 (Some \<lparr> enableDeepFreezing = Some True \<rparr>)
      \<lparr> requiredMutationProducerFn = producer_example, requiredEnableDeepFreezing = False \<rparr>
      [WritableNode (VRef 0) (=)] = (1, [WritableNode (VRef 0) (=), ComputedDeepFreeze 0])"
proof -
  note t = options_defaults_and_precedence
  have a: "Option.bind (Some options_freezing) enableDeepFreezing = Some True"
    "Option.bind (Some options_freezing) mutationProducerFn = None"
    by (simp_all add: options_freezing_def)
  show ?thesis
    using t[where options = "Some options_freezing" and b = True
               and g = "getDefaultImmutableSignalOptions (Window True)" and v = "VRef 0" and sigs = "[]" and w = "Window True"]
      t[where options = None
           and g = "\<lparr> requiredMutationProducerFn = producer_example, requiredEnableDeepFreezing = True \<rparr>"
           and v = "VRef 0" and sigs = "[]"]
      t[where options = "Some \<lparr> enableDeepFreezing = Some False, mutationProducerFn = Some producer_example, equal_opt = None \<rparr>"
           and f = producer_example
           and g = "\<lparr> requiredMutationProducerFn = naiveCloneAndMutate (Window True), requiredEnableDeepFreezing = True \<rparr>"
           and v = "VRef 0" and sigs = "[]"]
      t[where foptions = "Some \<lparr> enableDeepFreezing = Some False \<rparr>"
           and g = "\<lparr> requiredMutationProducerFn = producer_example, requiredEnableDeepFreezing = True \<rparr>"
           and sig = 0 and sigs = "[WritableNode (VRef 0) (=)]"]
      t[where foptions = "Some \<lparr> enableDeepFreezing = Some True \<rparr>"
           and g = "\<lparr> requiredMutationProducerFn = producer_example, requiredEnableDeepFreezing = False \<rparr>"
           and sig = 0 and sigs = "[WritableNode (VRef 0) (=)]"]
      a
    by (simp add: computed_deepFreeze_def)
qed

text \<open>
  Claim C9. \<open>setGlobalImmutableSignalOptions\<close> with \<open>null\<close> or \<open>undefined\<close> leaves the
  process-wide options as they are. With an options object the new options do not
  depend on the previous ones: an option that is absent is set to its built-in default.
\<close>

theorem setGlobal_replaces:
  "setGlobalImmutableSignalOptions w None g = g \<and>
   setGlobalImmutableSignalOptions w (Some opts) g =
     \<lparr> requiredMutationProducerFn =
         (case mutationProducerFn opts of Some f \<Rightarrow> f | None \<Rightarrow> naiveCloneAndMutate w),
       requiredEnableDeepFreezing =
         (case enableDeepFreezing opts of Some b \<Rightarrow> b | None \<Rightarrow> False) \<rparr> \<and>
   setGlobalImmutableSignalOptions w (Some opts) g = setGlobalImmutableSignalOptions w (Some opts) g'"
  by (simp add: setGlobalImmutableSignalOptions_def getDefaultImmutableSignalOptions_def nullish_def
      Let_def split: option.splits)

text \<open>
  Claim C9: a production strategy set by a first call is reset to \<open>naiveCloneAndMutate\<close>
  by a second call that names \<open>enableDeepFreezing\<close> only.
\<close>

theorem setGlobal_replaces_witness:
  "setGlobalImmutableSignalOptions (Window True) (Some \<lparr> enableDeepFreezing = Some True, mutationProducerFn = None \<rparr>)
     (setGlobalImmutableSignalOptions (Window True)
        (Some \<lparr> enableDeepFreezing = None, mutationProducerFn = Some producer_example \<rparr>)
        (getDefaultImmutableSignalOptions (Window True)))
   = \<lparr> requiredMutationProducerFn = naiveCloneAndMutate (Window True), requiredEnableDeepFreezing = True \<rparr> \<and>
   setGlobalImmutableSignalOptions (Window True) None
     \<lparr> requiredMutationProducerFn = producer_example, requiredEnableDeepFreezing = True \<rparr>
   = \<lparr> requiredMutationProducerFn = producer_example, requiredEnableDeepFreezing = True \<rparr>"
  using setGlobal_replaces[where w = "Window True"
      and opts = "\<lparr> enableDeepFreezing = Some True, mutationProducerFn = None \<rparr>"
      and g = "setGlobalImmutableSignalOptions (Window True)
        (Some \<lparr> enableDeepFreezing = None, mutationProducerFn = Some producer_example \<rparr>)
        (getDefaultImmutableSignalOptions (Window True))"]
    setGlobal_replaces[where w = "Window True"
      and g = "\<lparr> requiredMutationProducerFn = producer_example, requiredEnableDeepFreezing = True \<rparr>"]
  by simp

text \<open>
  Claim C10. With deep freezing disabled \<open>immutable\<close> returns the signal it was given
  and creates nothing. With deep freezing enabled it creates a new signal, different
  from the given one, and reading it is reading the given signal and passing the value
  through \<open>deepFreeze\<close>.
\<close>

theorem immutable_identity_unless_freezing:
  "(\<not> nullish (Option.bind foptions enableDeepFreezing) (requiredEnableDeepFreezing g) \<longrightarrow>
      immutable sig foptions g sigs = (sig, sigs)) \<and>
   (nullish (Option.bind foptions enableDeepFreezing) (requiredEnableDeepFreezing g) \<longrightarrow>
      immutable sig foptions g sigs = (length sigs, sigs @ [ComputedDeepFreeze sig]) \<and>
      (sig < length sigs \<longrightarrow>
         fst (immutable sig foptions g sigs) \<noteq> sig \<and>
         readSignal n (snd (immutable sig foptions g sigs)) (fst (immutable sig foptions g sigs)) h =
           (case readSignal n sigs sig h of
              None \<Rightarrow> None
            | Some (Throws e, h1) \<Rightarrow> Some (Throws e, h1)
            | Some (Returns v, h1) \<Rightarrow> deepFreeze n v h1)))"
proof (intro conjI impI)
  assume "\<not> nullish (Option.bind foptions enableDeepFreezing) (requiredEnableDeepFreezing g)"
  then show "immutable sig foptions g sigs = (sig, sigs)" by (simp add: immutable_def)
next
  assume en: "nullish (Option.bind foptions enableDeepFreezing) (requiredEnableDeepFreezing g)"
  then show eq: "immutable sig foptions g sigs = (length sigs, sigs @ [ComputedDeepFreeze sig])"
    by (simp add: immutable_def computed_deepFreeze_def)
  assume v: "sig < length sigs"
  then show "fst (immutable sig foptions g sigs) \<noteq> sig" using eq by simp
  have "readSignal n (sigs @ [ComputedDeepFreeze sig]) (length sigs) h =
      (case readSignal n (sigs @ [ComputedDeepFreeze sig]) sig h of
              None \<Rightarrow> None
            | Some (Throws e, h1) \<Rightarrow> Some (Throws e, h1)
            | Some (Returns v, h1) \<Rightarrow> deepFreeze n v h1)"
    using v by (subst readSignal.simps) (simp add: nth_append)
  with v eq show "readSignal n (snd (immutable sig foptions g sigs)) (fst (immutable sig foptions g sigs)) h =
           (case readSignal n sigs sig h of
              None \<Rightarrow> None
            | Some (Throws e, h1) \<Rightarrow> Some (Throws e, h1)
            | Some (Returns v, h1) \<Rightarrow> deepFreeze n v h1)"
    by (simp add: readSignal_append)
qed

text \<open>
  Claim C10 on a writable signal that holds \<open>{count: 0}\<close>: reading the signal leaves
  the object as it is, reading the derived signal returns the same reference, frozen.
\<close>

theorem immutable_identity_unless_freezing_witness:
  "immutable 0 None (getDefaultImmutableSignalOptions (Window True)) [WritableNode (VRef 0) (=)]
     = (0, [WritableNode (VRef 0) (=)]) \<and>
   immutable 0 (Some \<lparr> enableDeepFreezing = Some True \<rparr>) (getDefaultImmutableSignalOptions (Window True))
     [WritableNode (VRef 0) (=)] = (1, [WritableNode (VRef 0) (=), ComputedDeepFreeze 0]) \<and>
   readSignal 2 [WritableNode (VRef 0) (=)] 0 heap_count = Some (Returns (VRef 0), heap_count) \<and>
   readSignal 2 [WritableNode (VRef 0) (=), ComputedDeepFreeze 0] 1 heap_count
     = Some (Returns (VRef 0), heap_count_frozen)"
proof -
  note t = immutable_identity_unless_freezing
  have r: "readSignal 2 [WritableNode (VRef 0) (=)] 0 heap_count = Some (Returns (VRef 0), heap_count)"
    by (simp add: readSignal.simps)
  have d: "deepFreeze 2 (VRef 0) heap_count = Some (Returns (VRef 0), heap_count_frozen)"
    by code_simp
  have e: "immutable 0 (Some \<lparr> enableDeepFreezing = Some True \<rparr>) (getDefaultImmutableSignalOptions (Window True))
     [WritableNode (VRef 0) (=)] = (1, [WritableNode (VRef 0) (=), ComputedDeepFreeze 0])"
    by (simp add: immutable_def computed_deepFreeze_def nullish_def)
  from t[where foptions = None and g = "getDefaultImmutableSignalOptions (Window True)" and sig = 0
              and sigs = "[WritableNode (VRef 0) (=)]"]
  have a: "immutable 0 None (getDefaultImmutableSignalOptions (Window True)) [WritableNode (VRef 0) (=)]
     = (0, [WritableNode (VRef 0) (=)])"
    by (simp add: nullish_def getDefaultImmutableSignalOptions_def)
  from t[where foptions = "Some \<lparr> enableDeepFreezing = Some True \<rparr>"
              and g = "getDefaultImmutableSignalOptions (Window True)" and sig = 0
              and sigs = "[WritableNode (VRef 0) (=)]" and n = 2 and h = heap_count]
  have b: "readSignal 2 [WritableNode (VRef 0) (=), ComputedDeepFreeze 0] 1 heap_count
     = Some (Returns (VRef 0), heap_count_frozen)"
    unfolding e by (simp add: nullish_def r d)
  from a e r b show ?thesis by simp
qed

text \<open>
  Claim C3 fails for \<open>mutate\<close>. On a signal created with \<open>enableDeepFreezing: true\<close>,
  \<open>mutate\<close> commits the clone that the production strategy returns, and the clone is not
  frozen; \<open>update\<close> on the same signal commits a frozen value.
\<close>

theorem proxy_mutate_commits_unfrozen:
  "proxy_mutate
     (fst (immutableSignal (VRef 0) (Some options_freezing) (getDefaultImmutableSignalOptions w) []))
     mutation_increment
     (snd (immutableSignal (VRef 0) (Some options_freezing) (getDefaultImmutableSignalOptions w) []))
     heap_count
   = Some (Returns (), [WritableNode (VRef 1) (=)],
       [JSObject KObject True [(Name ''count'', DataProperty (VNum 0) True True)],
        JSObject KObject True [(Name ''count'', DataProperty (VNum 1) True True)]]) \<and>
   \<not> Object_isFrozen
       [JSObject KObject True [(Name ''count'', DataProperty (VNum 0) True True)],
        JSObject KObject True [(Name ''count'', DataProperty (VNum 1) True True)]] (VRef 1) \<and>
   proxy_update 2
     (fst (immutableSignal (VRef 0) (Some options_freezing) (getDefaultImmutableSignalOptions w) []))
     update_fresh
     (snd (immutableSignal (VRef 0) (Some options_freezing) (getDefaultImmutableSignalOptions w) []))
     heap_count
   = Some (Returns (), [WritableNode (VRef 1) (=)],
       [JSObject KObject True [(Name ''count'', DataProperty (VNum 0) True True)],
        JSObject KObject False [(Name ''count'', DataProperty (VNum 1) False False)]])"
proof -
  have s: "immutableSignal (VRef 0) (Some options_freezing) (getDefaultImmutableSignalOptions w) []
    = (\<lparr> target = 0, deepFreezeEnabled = True, mutateFn = naiveCloneAndMutate w \<rparr>,
       [WritableNode (VRef 0) (=)])"
    by (simp add: immutableSignal_def options_freezing_def getDefaultImmutableSignalOptions_def
        nullish_def signal_def)
  have c: "deepClone w (VRef 0) heap_count =
     (Returns (VRef 1), heap_count @ [JSObject KObject True [(Name ''count'', DataProperty (VNum 0) True True)]])"
  proof (cases w)
    case (Window b)
    have "deepClone (Window True) (VRef 0) heap_count =
     (Returns (VRef 1), heap_count @ [JSObject KObject True [(Name ''count'', DataProperty (VNum 0) True True)]])"
      by code_simp
    moreover have "deepClone (Window False) (VRef 0) heap_count =
     (Returns (VRef 1), heap_count @ [JSObject KObject True [(Name ''count'', DataProperty (VNum 0) True True)]])"
      by code_simp
    ultimately show ?thesis using Window by (cases b) simp_all
  qed
  have m: "naiveCloneAndMutate w (VRef 0) mutation_increment heap_count =
     Some (Returns (VRef 1),
       [JSObject KObject True [(Name ''count'', DataProperty (VNum 0) True True)],
        JSObject KObject True [(Name ''count'', DataProperty (VNum 1) True True)]])"
    unfolding naiveCloneAndMutate_def c mutation_increment_def
    by (simp add: heap_count_def Put_def putObject_def)
  have u: "deepFreeze 2 (VRef 1)
      (heap_count @ [JSObject KObject True [(Name ''count'', DataProperty (VNum 1) True True)]])
    = Some (Returns (VRef 1),
       [JSObject KObject True [(Name ''count'', DataProperty (VNum 0) True True)],
        JSObject KObject False [(Name ''count'', DataProperty (VNum 1) False False)]])"
    by code_simp
  have f: "\<not> Object_isFrozen
       [JSObject KObject True [(Name ''count'', DataProperty (VNum 0) True True)],
        JSObject KObject True [(Name ''count'', DataProperty (VNum 1) True True)]] (VRef 1)"
    by code_simp
  have pm: "proxy_mutate \<lparr> target = 0, deepFreezeEnabled = True, mutateFn = naiveCloneAndMutate w \<rparr>
      mutation_increment [WritableNode (VRef 0) (=)] heap_count
    = Some (Returns (), [WritableNode (VRef 1) (=)],
       [JSObject KObject True [(Name ''count'', DataProperty (VNum 0) True True)],
        JSObject KObject True [(Name ''count'', DataProperty (VNum 1) True True)]])"
    by (simp add: proxy_mutate_def signal_update_def signal_set_def m)
  have len: "length heap_count = 1" by (simp add: heap_count_def)
  have pu: "proxy_update 2 \<lparr> target = 0, deepFreezeEnabled = True, mutateFn = naiveCloneAndMutate w \<rparr>
      update_fresh [WritableNode (VRef 0) (=)] heap_count
    = Some (Returns (), [WritableNode (VRef 1) (=)],
       [JSObject KObject True [(Name ''count'', DataProperty (VNum 0) True True)],
        JSObject KObject False [(Name ''count'', DataProperty (VNum 1) False False)]])"
    by (simp add: proxy_update_def signal_update_def signal_set_def update_fresh_def len u[unfolded One_nat_def])
  from f pm pu show ?thesis by (simp add: s)
qed

section \<open>Properties of the cloner and of the mutation applier\<close>

subsection \<open>The cloner allocates and the mutation keeps to its draft\<close>

lemma allocates_refl: "allocates h h"
  by (simp add: allocates_def)

lemma freshValue_mono: "n \<le> n' \<Longrightarrow> freshValue n' v \<Longrightarrow> freshValue n v"
  by (cases v) (simp_all add: freshValue_def)

lemma freshObject_mono: "n \<le> n' \<Longrightarrow> freshObject n' ob \<Longrightarrow> freshObject n ob"
  by (auto simp: freshObject_def list_all_iff intro: freshValue_mono)

lemma allocates_trans: "allocates h h1 \<Longrightarrow> allocates h1 h2 \<Longrightarrow> allocates h h2"
proof -
  assume "allocates h h1" "allocates h1 h2"
  then obtain n1 n2 where n1: "h1 = h @ n1" "list_all (freshObject (length h)) n1"
    and n2: "h2 = h1 @ n2" "list_all (freshObject (length h1)) n2"
    by (auto simp: allocates_def)
  from n1 n2 have "list_all (freshObject (length h)) n2"
    by (auto simp: list_all_iff intro: freshObject_mono[of "length h" "length h + length n1"])
  with n1 n2 show ?thesis unfolding allocates_def by (intro exI[of _ "n1 @ n2"]) simp
qed

lemma allocates_length: "allocates h h1 \<Longrightarrow> length h \<le> length h1"
  by (auto simp: allocates_def)

lemma JSON_build_allocates:
  "JSON_build j h = (v, h1) \<Longrightarrow> allocates h h1 \<and> freshValue (length h) v"
  "JSON_build_elements js h = (vs, h2) \<Longrightarrow> allocates h h2 \<and> list_all (freshValue (length h)) vs"
  "JSON_build_members ms h = (ps, h3) \<Longrightarrow>
     allocates h h3 \<and> list_all (\<lambda>kp. freshValue (length h) (pvalue (snd kp))) ps"
proof (induction j h and js h and ms h arbitrary: v h1 and vs h2 and ps h3
       rule: JSON_build_JSON_build_elements_JSON_build_members.induct)
  case (5 js h)
  obtain vs h' where e: "JSON_build_elements js h = (vs, h')" by (cases "JSON_build_elements js h")
  from "5.IH"[OF e] have a: "allocates h h'" and f: "list_all (freshValue (length h)) vs" by simp_all
  let ?ob = "JSObject KArray True (zip (map Index [0..<length vs]) (map newProperty vs))"
  from "5.prems" e have v: "v = VRef (length h')" and h1: "h1 = h' @ [?ob]" by simp_all
  have "freshObject (length h) ?ob"
    using f by (auto simp: freshObject_def list_all_iff newProperty_def dest!: set_zip_rightD)
  have "allocates h h1"
    unfolding h1 using a \<open>freshObject (length h) ?ob\<close>
    by (auto simp: allocates_def)
  moreover have "freshValue (length h) v" using v allocates_length[OF a] by (simp add: freshValue_def)
  ultimately show ?case by simp
next
  case (6 ms h)
  obtain ps h' where e: "JSON_build_members ms h = (ps, h')" by (cases "JSON_build_members ms h")
  from "6.IH"[OF e] have a: "allocates h h'"
    and f: "list_all (\<lambda>kp. freshValue (length h) (pvalue (snd kp))) ps" by simp_all
  from "6.prems" e have v: "v = VRef (length h')" and h1: "h1 = h' @ [JSObject KObject True ps]"
    by simp_all
  have "allocates h h1"
    unfolding h1 using a f by (auto simp: allocates_def freshObject_def)
  moreover have "freshValue (length h) v" using v allocates_length[OF a] by (simp add: freshValue_def)
  ultimately show ?case by simp
next
  case (8 j js h)
  obtain v' h' where b: "JSON_build j h = (v', h')" by (cases "JSON_build j h")
  obtain vs' h'' where e: "JSON_build_elements js h' = (vs', h'')"
    by (cases "JSON_build_elements js h'")
  from "8.IH"(1)[OF b] have a1: "allocates h h'" and f1: "freshValue (length h) v'" by simp_all
  from "8.IH"(2)[OF b[symmetric] e] have a2: "allocates h' h''"
    and f2: "list_all (freshValue (length h')) vs'" by simp_all
  from "8.prems" b e have r: "vs = v' # vs'" "h2 = h''" by simp_all
  from f2 allocates_length[OF a1] have "list_all (freshValue (length h)) vs'"
    by (auto simp: list_all_iff intro: freshValue_mono)
  with r f1 allocates_trans[OF a1 a2] show ?case by simp
next
  case (10 k j ms h)
  obtain v' h' where b: "JSON_build j h = (v', h')" by (cases "JSON_build j h")
  obtain ps' h'' where e: "JSON_build_members ms h' = (ps', h'')"
    by (cases "JSON_build_members ms h'")
  from "10.IH"(1)[OF b] have a1: "allocates h h'" and f1: "freshValue (length h) v'" by simp_all
  from "10.IH"(2)[OF b[symmetric] e] have a2: "allocates h' h''"
    and f2: "list_all (\<lambda>kp. freshValue (length h') (pvalue (snd kp))) ps'" by simp_all
  from "10.prems" b e have r: "ps = (k, newProperty v') # ps'" "h3 = h''" by simp_all
  from f2 allocates_length[OF a1] have "list_all (\<lambda>kp. freshValue (length h) (pvalue (snd kp))) ps'"
    by (auto simp: list_all_iff intro: freshValue_mono)
  with r f1 allocates_trans[OF a1 a2] show ?case by (simp add: newProperty_def)
qed (simp_all add: allocates_refl freshValue_def)

lemma naiveDeepClone_allocates:
  "naiveDeepClone v h = (r, h1) \<Longrightarrow> allocates h h1 \<and> (\<forall>c. r = Returns c \<longrightarrow> freshValue (length h) c)"
  by (auto simp: naiveDeepClone_def JSON_parse_def allocates_refl
      split: outcome.splits option.splits prod.splits dest: JSON_build_allocates(1))

lemma freshValue_relocateValue: "freshValue (length h) (relocateValue h live v)"
  by (cases v) (simp_all add: relocateValue_def relocate_def freshValue_def)

lemma freshObject_cloneObject: "freshObject (length h) (cloneObject h live ob)"
  by (simp add: freshObject_def cloneObject_def list_all_iff newProperty_def freshValue_relocateValue)

lemma structuredClone_allocates:
  "structuredClone v h = (r, h1) \<Longrightarrow> allocates h h1 \<and> (\<forall>c. r = Returns c \<longrightarrow> freshValue (length h) c)"
  by (auto simp: structuredClone_def Let_def allocates_refl allocates_def list_all_iff
      freshObject_cloneObject freshValue_relocateValue split: if_splits)

lemma deepClone_allocates:
  "deepClone w v h = (r, h1) \<Longrightarrow> allocates h h1 \<and> (\<forall>c. r = Returns c \<longrightarrow> freshValue (length h) c)"
  unfolding deepClone_def
  by (cases "structuredClone_in_window w") (simp_all add: structuredClone_allocates naiveDeepClone_allocates)

lemma allocates_old: "allocates h h1 \<Longrightarrow> a < length h \<Longrightarrow> h1 ! a = h ! a"
  by (auto simp: allocates_def nth_append)

lemma allocates_new:
  "allocates h h1 \<Longrightarrow> length h \<le> a \<Longrightarrow> a < length h1 \<Longrightarrow> freshObject (length h) (h1 ! a)"
  by (auto simp: allocates_def nth_append list_all_length)

lemma ownReach_fresh:
  assumes al: "allocates h h1" and fv: "freshValue (length h) c" and r: "ownReach h1 c a"
  shows "length h \<le> a"
  using r
proof (induction rule: ownReach.induct)
  case (own_root a)
  with fv show ?case by (simp add: freshValue_def)
next
  case (own_step a k c')
  from own_step.hyps(3) have lt: "a < length h1" and
    "\<exists>p. map_of (props (h1 ! a)) k = Some p \<and> pvalue p = VRef c'"
    by (auto simp: Get_def split: if_splits option.splits)
  then obtain p where "(k, p) \<in> set (props (h1 ! a))" "pvalue p = VRef c'"
    by (auto dest: map_of_SomeD)
  moreover from allocates_new[OF al own_step.IH lt] have "freshObject (length h) (h1 ! a)" .
  ultimately show ?case by (auto simp: freshObject_def list_all_iff freshValue_def)
qed

lemma mutation_keeps_old:
  assumes w: "writesOnlyDraft m" and al: "allocates h h1" and fv: "freshValue (length h) c"
    and run: "m c h1 = Some (r, h2)"
  shows "take (length h) h2 = h"
proof (rule nth_equalityI)
  from w run have len: "length h1 \<le> length h2" by (auto simp: writesOnlyDraft_def)
  with allocates_length[OF al] show "length (take (length h) h2) = length h" by simp
  fix a assume "a < length (take (length h) h2)"
  then have a: "a < length h" by simp
  then have "\<not> ownReach h1 c a" using ownReach_fresh[OF al fv] by fastforce
  moreover have "a < length h1" using a allocates_length[OF al] by simp
  ultimately have "h2 ! a = h1 ! a" using w run by (auto simp: writesOnlyDraft_def)
  with a allocates_old[OF al a] show "take (length h) h2 ! a = h ! a" by simp
qed

lemma allocates_take: "allocates h h1 \<Longrightarrow> take (length h) h1 = h"
  by (auto simp: allocates_def)

lemma length_Put: "length (Put d k v h) = length h"
  by (cases d) (simp_all add: Put_def)

lemma Put_other: "\<not> ownReach h d a \<Longrightarrow> Put d k v h ! a = h ! a"
proof (cases d)
  case (VRef b)
  assume "\<not> ownReach h d a"
  with VRef have "a \<noteq> b" by (auto intro: ownReach.own_root)
  with VRef show ?thesis by (simp add: Put_def)
qed (simp_all add: Put_def)

lemma writesOnlyDraft_set_a: "writesOnlyDraft mutation_set_a"
  by (auto simp: writesOnlyDraft_def mutation_set_a_def length_Put Put_other)

lemma writesOnlyDraft_conditional: "writesOnlyDraft mutation_conditional"
  by (auto simp: writesOnlyDraft_def mutation_conditional_def length_Put Put_other split: if_splits)

text \<open>
  Claim C1, amended. Let the mutation write only to what it reaches from its draft.
  When \<open>deepClone\<close> returns a clone and the mutation returns, \<open>naiveCloneAndMutate\<close>
  returns the clone as the mutation left it; every object that existed before the call
  is unchanged, and no object reached from the result existed before the call. When
  \<open>deepClone\<close> throws, \<open>naiveCloneAndMutate\<close> throws the same and the heap is unchanged.
\<close>

theorem naiveCloneAndMutate_mutates_clone:
  assumes "writesOnlyDraft m"
  shows "(deepClone w v h = (Returns c, h1) \<longrightarrow> m c h1 = Some (Returns u, h2) \<longrightarrow>
            naiveCloneAndMutate w v m h = Some (Returns c, h2) \<and> take (length h) h2 = h \<and>
            (\<forall>a. ownReach h1 c a \<longrightarrow> length h \<le> a)) \<and>
         (deepClone w v h = (Throws e, h1) \<longrightarrow>
            naiveCloneAndMutate w v m h = Some (Throws e, h) \<and> h1 = h)"
proof (intro conjI impI allI)
  assume c: "deepClone w v h = (Returns c, h1)" and m: "m c h1 = Some (Returns u, h2)"
  from deepClone_allocates[OF c] have al: "allocates h h1" and fv: "freshValue (length h) c"
    by simp_all
  from c m show "naiveCloneAndMutate w v m h = Some (Returns c, h2)"
    by (simp add: naiveCloneAndMutate_def)
  from assms al fv m show "take (length h) h2 = h" by (rule mutation_keeps_old)
  fix a assume "ownReach h1 c a"
  with al fv show "length h \<le> a" by (rule ownReach_fresh)
next
  assume c: "deepClone w v h = (Throws e, h1)"
  then show h1: "h1 = h"
    by (auto simp: deepClone_def structuredClone_def naiveDeepClone_def JSON_parse_def Let_def
        split: if_splits outcome.splits option.splits prod.splits)
  with c show "naiveCloneAndMutate w v m h = Some (Throws e, h)"
    by (simp add: naiveCloneAndMutate_def)
qed

text \<open>
  The amended claim C1 on \<open>{a: 1}\<close> and the mutation that sets \<open>a\<close> to 42.
\<close>

theorem naiveCloneAndMutate_mutates_clone_witness:
  "deepClone (Window True) (VRef 0) heap_a
     = (Returns (VRef 1), [JSObject KObject True [(Name ''a'', DataProperty (VNum 1) True True)],
                           JSObject KObject True [(Name ''a'', DataProperty (VNum 1) True True)]]) \<and>
   naiveCloneAndMutate (Window True) (VRef 0) mutation_set_a heap_a
     = Some (Returns (VRef 1), [JSObject KObject True [(Name ''a'', DataProperty (VNum 1) True True)],
                                JSObject KObject True [(Name ''a'', DataProperty (VNum 42) True True)]]) \<and>
   take (length heap_a) [JSObject KObject True [(Name ''a'', DataProperty (VNum 1) True True)],
                         JSObject KObject True [(Name ''a'', DataProperty (VNum 42) True True)]] = heap_a"
proof -
  have c: "deepClone (Window True) (VRef 0) heap_a
     = (Returns (VRef 1), [JSObject KObject True [(Name ''a'', DataProperty (VNum 1) True True)],
                           JSObject KObject True [(Name ''a'', DataProperty (VNum 1) True True)]])"
    by code_simp
  have m: "mutation_set_a (VRef 1) [JSObject KObject True [(Name ''a'', DataProperty (VNum 1) True True)],
                           JSObject KObject True [(Name ''a'', DataProperty (VNum 1) True True)]]
     = Some (Returns (), [JSObject KObject True [(Name ''a'', DataProperty (VNum 1) True True)],
                          JSObject KObject True [(Name ''a'', DataProperty (VNum 42) True True)]])"
    by code_simp
  from naiveCloneAndMutate_mutates_clone[OF writesOnlyDraft_set_a, where w = "Window True"
      and v = "VRef 0" and h = heap_a and c = "VRef 1" and u = "()"
      and ?h1.0 = "[JSObject KObject True [(Name ''a'', DataProperty (VNum 1) True True)],
                           JSObject KObject True [(Name ''a'', DataProperty (VNum 1) True True)]]"
      and ?h2.0 = "[JSObject KObject True [(Name ''a'', DataProperty (VNum 1) True True)],
                                JSObject KObject True [(Name ''a'', DataProperty (VNum 42) True True)]]"]
    c m
  show ?thesis by simp
qed

text \<open>
  Claim C1 as stated fails: the mutation returns, and yet \<open>naiveCloneAndMutate\<close> throws
  where the cloner does, on a function when the window has \<open>structuredClone\<close>, and on a
  cyclic value when it has not.
\<close>

theorem naiveCloneAndMutate_cloner_throws_counterexample:
  "mutation_noop (VRef 0) (heap_function (KFunction False))
     = Some (Returns (), heap_function (KFunction False)) \<and>
   naiveCloneAndMutate (Window True) (VRef 0) mutation_noop (heap_function (KFunction False))
     = Some (Throws DataCloneError, heap_function (KFunction False)) \<and>
   naiveCloneAndMutate (Window False) (VRef 0) mutation_noop heap_cyclic
     = Some (Throws TypeError, heap_cyclic)"
proof -
  have "mutation_noop (VRef 0) (heap_function (KFunction False))
     = Some (Returns (), heap_function (KFunction False))" by (simp add: mutation_noop_def)
  moreover have "naiveCloneAndMutate (Window True) (VRef 0) mutation_noop (heap_function (KFunction False))
     = Some (Throws DataCloneError, heap_function (KFunction False))" by code_simp
  moreover have "naiveCloneAndMutate (Window False) (VRef 0) mutation_noop heap_cyclic
     = Some (Throws TypeError, heap_cyclic)" by code_simp
  ultimately show ?thesis by simp
qed

text \<open>
  Claim C4, amended. Let the mutation write only to what it reaches from its draft.
  When \<open>deepClone\<close> returns a clone and the mutation throws on it, \<open>naiveCloneAndMutate\<close>
  throws the failure of the mutation and returns no value, and every object that existed
  before the call is unchanged. When \<open>deepClone\<close> throws, the mutation is not called:
  \<open>naiveCloneAndMutate\<close> throws the failure of the cloner and the heap is unchanged.
\<close>

theorem naiveCloneAndMutate_propagates_failure:
  assumes "writesOnlyDraft m"
  shows "(deepClone w v h = (Returns c, h1) \<longrightarrow> m c h1 = Some (Throws e, h2) \<longrightarrow>
            naiveCloneAndMutate w v m h = Some (Throws e, h2) \<and> take (length h) h2 = h) \<and>
         (deepClone w v h = (Throws e', h1') \<longrightarrow>
            naiveCloneAndMutate w v m h = Some (Throws e', h) \<and> h1' = h)"
proof (intro conjI impI)
  assume c: "deepClone w v h = (Returns c, h1)" and m: "m c h1 = Some (Throws e, h2)"
  from deepClone_allocates[OF c] have al: "allocates h h1" and fv: "freshValue (length h) c"
    by simp_all
  from c m show "naiveCloneAndMutate w v m h = Some (Throws e, h2)"
    by (simp add: naiveCloneAndMutate_def)
  from assms al fv m show "take (length h) h2 = h" by (rule mutation_keeps_old)
next
  assume c: "deepClone w v h = (Throws e', h1')"
  from deepClone_allocates[OF c] have "allocates h h1'" by simp
  moreover from c have "length h1' = length h \<or> h1' = h"
    by (auto simp: deepClone_def structuredClone_def naiveDeepClone_def JSON_parse_def Let_def
        split: if_splits outcome.splits option.splits prod.splits)
  ultimately show h1: "h1' = h" by (auto simp: allocates_def)
  with c show "naiveCloneAndMutate w v m h = Some (Throws e', h)"
    by (simp add: naiveCloneAndMutate_def)
qed

text \<open>
  The amended claim C4 on \<open>{a: 1}\<close> and a mutation that writes to its draft and then
  throws in this call (it returns on the draft it has written): \<open>a\<close> is still 1.
\<close>

theorem naiveCloneAndMutate_propagates_failure_witness:
  "deepClone (Window False) (VRef 0) heap_a
     = (Returns (VRef 1), [JSObject KObject True [(Name ''a'', DataProperty (VNum 1) True True)],
                           JSObject KObject True [(Name ''a'', DataProperty (VNum 1) True True)]]) \<and>
   mutation_conditional (VRef 1)
       [JSObject KObject True [(Name ''a'', DataProperty (VNum 1) True True)],
        JSObject KObject True [(Name ''a'', DataProperty (VNum 1) True True)]]
     = Some (Throws (UserError ''Mutation error''),
         [JSObject KObject True [(Name ''a'', DataProperty (VNum 1) True True)],
          JSObject KObject True [(Name ''a'', DataProperty (VNum 42) True True)]]) \<and>
   mutation_conditional (VRef 1)
       [JSObject KObject True [(Name ''a'', DataProperty (VNum 1) True True)],
        JSObject KObject True [(Name ''a'', DataProperty (VNum 42) True True)]]
     = Some (Returns (),
         [JSObject KObject True [(Name ''a'', DataProperty (VNum 1) True True)],
          JSObject KObject True [(Name ''a'', DataProperty (VNum 42) True True)]]) \<and>
   naiveCloneAndMutate (Window False) (VRef 0) mutation_conditional heap_a
     = Some (Throws (UserError ''Mutation error''),
         [JSObject KObject True [(Name ''a'', DataProperty (VNum 1) True True)],
          JSObject KObject True [(Name ''a'', DataProperty (VNum 42) True True)]]) \<and>
   take (length heap_a)
         [JSObject KObject True [(Name ''a'', DataProperty (VNum 1) True True)],
          JSObject KObject True [(Name ''a'', DataProperty (VNum 42) True True)]] = heap_a \<and>
   Get [JSObject KObject True [(Name ''a'', DataProperty (VNum 1) True True)],
          JSObject KObject True [(Name ''a'', DataProperty (VNum 42) True True)]] (VRef 0) (Name ''a'')
     = Returns (VNum 1)"
proof -
  have c: "deepClone (Window False) (VRef 0) heap_a
     = (Returns (VRef 1), [JSObject KObject True [(Name ''a'', DataProperty (VNum 1) True True)],
                           JSObject KObject True [(Name ''a'', DataProperty (VNum 1) True True)]])"
    by code_simp
  have m: "mutation_conditional (VRef 1)
       [JSObject KObject True [(Name ''a'', DataProperty (VNum 1) True True)],
        JSObject KObject True [(Name ''a'', DataProperty (VNum 1) True True)]]
     = Some (Throws (UserError ''Mutation error''),
         [JSObject KObject True [(Name ''a'', DataProperty (VNum 1) True True)],
          JSObject KObject True [(Name ''a'', DataProperty (VNum 42) True True)]])"
    by code_simp
  have r: "mutation_conditional (VRef 1)
       [JSObject KObject True [(Name ''a'', DataProperty (VNum 1) True True)],
        JSObject KObject True [(Name ''a'', DataProperty (VNum 42) True True)]]
     = Some (Returns (),
         [JSObject KObject True [(Name ''a'', DataProperty (VNum 1) True True)],
          JSObject KObject True [(Name ''a'', DataProperty (VNum 42) True True)]])"
    by code_simp
  have g: "Get [JSObject KObject True [(Name ''a'', DataProperty (VNum 1) True True)],
          JSObject KObject True [(Name ''a'', DataProperty (VNum 42) True True)]] (VRef 0) (Name ''a'')
     = Returns (VNum 1)" by code_simp
  from naiveCloneAndMutate_propagates_failure[OF writesOnlyDraft_conditional,
      where w = "Window False" and v = "VRef 0" and h = heap_a and c = "VRef 1"
      and e = "UserError ''Mutation error''"
      and ?h1.0 = "[JSObject KObject True [(Name ''a'', DataProperty (VNum 1) True True)],
                    JSObject KObject True [(Name ''a'', DataProperty (VNum 1) True True)]]"
      and ?h2.0 = "[JSObject KObject True [(Name ''a'', DataProperty (VNum 1) True True)],
                    JSObject KObject True [(Name ''a'', DataProperty (VNum 42) True True)]]"]
    c m r g
  show ?thesis by simp
qed

text \<open>
  Claim C4 as stated fails: the mutation throws whenever it is called, and the failure
  that reaches the caller is not the one it throws but the cloner's, on a function when
  the window has \<open>structuredClone\<close>, and on a cyclic value when it has not.
\<close>

theorem naiveCloneAndMutate_cloner_failure_counterexample:
  "mutation_failing (VRef 0) (heap_function (KFunction False))
     = Some (Throws (UserError ''Mutation error''),
         [JSObject (KFunction False) True
            [(Name ''callee'', DataProperty (VRef 1) True True),
             (Name ''data'', DataProperty (VRef 2) True True),
             (Name ''a'', DataProperty (VNum 42) True True)],
          JSObject KObject True [],
          JSObject KObject True []]) \<and>
   naiveCloneAndMutate (Window True) (VRef 0) mutation_failing (heap_function (KFunction False))
     = Some (Throws DataCloneError, heap_function (KFunction False)) \<and>
   mutation_failing (VRef 0) heap_cyclic
     = Some (Throws (UserError ''Mutation error''), Put (VRef 0) (Name ''a'') (VNum 42) heap_cyclic) \<and>
   naiveCloneAndMutate (Window False) (VRef 0) mutation_failing heap_cyclic
     = Some (Throws TypeError, heap_cyclic)"
proof -
  have "mutation_failing (VRef 0) (heap_function (KFunction False))
     = Some (Throws (UserError ''Mutation error''),
         [JSObject (KFunction False) True
            [(Name ''callee'', DataProperty (VRef 1) True True),
             (Name ''data'', DataProperty (VRef 2) True True),
             (Name ''a'', DataProperty (VNum 42) True True)],
          JSObject KObject True [],
          JSObject KObject True []])" by code_simp
  moreover have "naiveCloneAndMutate (Window True) (VRef 0) mutation_failing (heap_function (KFunction False))
     = Some (Throws DataCloneError, heap_function (KFunction False))" by code_simp
  moreover have "mutation_failing (VRef 0) heap_cyclic
     = Some (Throws (UserError ''Mutation error''), Put (VRef 0) (Name ''a'') (VNum 42) heap_cyclic)"
    by (simp add: mutation_failing_def)
  moreover have "naiveCloneAndMutate (Window False) (VRef 0) mutation_failing heap_cyclic
     = Some (Throws TypeError, heap_cyclic)" by code_simp
  ultimately show ?thesis by simp
qed

subsection \<open>Values that represent JSON trees\<close>

declare JSON_serialize.simps [simp del]

lemma represents_Ref:
  "represents h v (JArr js) \<Longrightarrow> \<exists>a. v = VRef a \<and> a < length h \<and> kind (h ! a) = KArray"
  "represents h v (JObj ms) \<Longrightarrow> \<exists>a. v = VRef a \<and> a < length h \<and> kind (h ! a) = KObject"
  by (cases v; simp)+

lemma list_all2_right_witness:
  "list_all2 P xs ys \<Longrightarrow> y \<in> set ys \<Longrightarrow> \<exists>x. P x y"
  by (induction rule: list_all2_induct) auto

lemma represents_distinctKeys: "represents h v t \<Longrightarrow> distinctKeys t"
proof (induction t arbitrary: v)
  case (JArr js)
  from represents_Ref(1)[OF JArr.prems] obtain a where "v = VRef a" by blast
  with JArr.prems have "list_all2 (\<lambda>kp j. represents h (pvalue (snd kp)) j) (props (h ! a)) js"
    by simp
  then have "\<forall>j \<in> set js. \<exists>v'. represents h v' j"
    by (blast dest: list_all2_right_witness)
  with JArr.IH show ?case by (auto simp: list_all_iff)
next
  case (JObj ms)
  from represents_Ref(2)[OF JObj.prems] obtain a where "v = VRef a" by blast
  with JObj.prems have d: "distinct (map fst ms)"
    and "list_all2 (\<lambda>kp m. represents h (pvalue (snd kp)) (snd m)) (props (h ! a)) ms"
    by simp_all
  then have "\<forall>m \<in> set ms. \<exists>v'. represents h v' (snd m)"
    by (blast dest: list_all2_right_witness)
  with JObj.IH d show ?case by (fastforce simp: list_all_iff)
qed simp_all

lemma represents_append:
  "represents h v t \<Longrightarrow> represents (h @ new) v t"
proof (induction t arbitrary: v)
  case (JArr js)
  from represents_Ref(1)[OF JArr.prems] obtain a where a: "v = VRef a" "a < length h" by blast
  then have same: "(h @ new) ! a = h ! a" by (simp add: nth_append)
  from JArr.prems a have "list_all2 (\<lambda>kp j. represents h (pvalue (snd kp)) j) (props (h ! a)) js"
    by simp
  then have "list_all2 (\<lambda>kp j. represents (h @ new) (pvalue (snd kp)) j) (props (h ! a)) js"
    by (rule list.rel_mono_strong) (auto intro: JArr.IH)
  with JArr.prems a same show ?case by simp
next
  case (JObj ms)
  from represents_Ref(2)[OF JObj.prems] obtain a where a: "v = VRef a" "a < length h" by blast
  then have same: "(h @ new) ! a = h ! a" by (simp add: nth_append)
  from JObj.prems a
  have "list_all2 (\<lambda>kp m. represents h (pvalue (snd kp)) (snd m)) (props (h ! a)) ms" by simp
  then have "list_all2 (\<lambda>kp m. represents (h @ new) (pvalue (snd kp)) (snd m)) (props (h ! a)) ms"
  proof (rule list.rel_mono_strong)
    fix kp m assume "m \<in> set ms" "represents h (pvalue (snd kp)) (snd m)"
    then show "represents (h @ new) (pvalue (snd kp)) (snd m)"
      by (intro JObj.IH[of m "snd m"]) (auto simp: snds.simps)
  qed
  with JObj.prems a same show ?case by simp
qed simp_all

lemma represents_allocates:
  "allocates h h1 \<Longrightarrow> represents h v t \<Longrightarrow> represents h1 v t"
  by (auto simp: allocates_def represents_append)

lemma represents_unique:
  "represents h v t \<Longrightarrow> represents h v t' \<Longrightarrow> t = t'"
proof (induction t arbitrary: v t')
  case (JArr js)
  from represents_Ref(1)[OF JArr.prems(1)] obtain a where a: "v = VRef a" "kind (h ! a) = KArray"
    by blast
  with JArr.prems(2) obtain js' where t': "t' = JArr js'" by (cases t') auto
  from JArr.prems a t'
  have l: "list_all2 (\<lambda>kp j. represents h (pvalue (snd kp)) j) (props (h ! a)) js"
    and l': "list_all2 (\<lambda>kp j. represents h (pvalue (snd kp)) j) (props (h ! a)) js'"
    by simp_all
  have "js = js'"
  proof (rule nth_equalityI)
    from list_all2_lengthD[OF l] list_all2_lengthD[OF l']
    show len: "length js = length js'" by simp
    fix i assume i: "i < length js"
    with l l' len have "represents h (pvalue (snd (props (h ! a) ! i))) (js ! i)"
      "represents h (pvalue (snd (props (h ! a) ! i))) (js' ! i)"
      by (auto simp: list_all2_conv_all_nth)
    with i show "js ! i = js' ! i" by (intro JArr.IH[of "js ! i"]) auto
  qed
  with t' show ?case by simp
next
  case (JObj ms)
  from represents_Ref(2)[OF JObj.prems(1)] obtain a where a: "v = VRef a" "kind (h ! a) = KObject"
    by blast
  with JObj.prems(2) obtain ms' where t': "t' = JObj ms'" by (cases t') auto
  from JObj.prems a t'
  have l: "list_all2 (\<lambda>kp m. represents h (pvalue (snd kp)) (snd m)) (props (h ! a)) ms"
    and l': "list_all2 (\<lambda>kp m. represents h (pvalue (snd kp)) (snd m)) (props (h ! a)) ms'"
    and k: "map fst ms = map fst ms'"
    by simp_all
  have "map snd ms = map snd ms'"
  proof (rule nth_equalityI)
    from list_all2_lengthD[OF l] list_all2_lengthD[OF l']
    show "length (map snd ms) = length (map snd ms')" by simp
    fix i assume "i < length (map snd ms)"
    then have i: "i < length ms" by simp
    moreover from list_all2_lengthD[OF l] list_all2_lengthD[OF l']
    have len: "length ms = length ms'" by simp
    ultimately have "represents h (pvalue (snd (props (h ! a) ! i))) (snd (ms ! i))"
      "represents h (pvalue (snd (props (h ! a) ! i))) (snd (ms' ! i))"
      using l l' by (auto simp: list_all2_conv_all_nth)
    with i have "snd (ms ! i) = snd (ms' ! i)"
      by (intro JObj.IH[of "ms ! i" "snd (ms ! i)"]) (auto simp: snds.simps)
    with i len show "map snd ms ! i = map snd ms' ! i" by simp
  qed
  with k have "ms = ms'" by (rule pair_list_eqI)
  with t' show ?case by simp
next
  case JNull then show ?case by (cases t') (auto split: jsval.splits)
next
  case (JBool b) then show ?case by (cases t') (auto split: jsval.splits)
next
  case (JNum n) then show ?case by (cases t') (auto split: jsval.splits)
next
  case (JStr s) then show ?case by (cases t') (auto split: jsval.splits)
qed

lemma JSON_serialize_primitive:
  "JSON_serialize h stack VNull = Returns (Some JNull)"
  "JSON_serialize h stack (VBool b) = Returns (Some (JBool b))"
  "JSON_serialize h stack (VNum n) = Returns (Some (JNum n))"
  "JSON_serialize h stack (VStr s) = Returns (Some (JStr s))"
  by (simp_all add: JSON_serialize.simps)

lemma JSON_serialize_array:
  "a < length h \<Longrightarrow> kind (h ! a) = KArray \<Longrightarrow> a \<notin> set stack \<Longrightarrow>
   JSON_serialize h stack (VRef a) =
     (case collect (map (\<lambda>kp. JSON_serialize h (a # stack) (pvalue (snd kp))) (props (h ! a))) of
        Throws e \<Rightarrow> Throws e
      | Returns elements \<Rightarrow>
          Returns (Some (JArr (map (\<lambda>el. case el of None \<Rightarrow> JNull | Some j \<Rightarrow> j) elements))))"
  by (subst JSON_serialize.simps) simp

lemma JSON_serialize_object:
  "a < length h \<Longrightarrow> kind (h ! a) = KObject \<Longrightarrow> a \<notin> set stack \<Longrightarrow>
   JSON_serialize h stack (VRef a) =
     (case collect (map (\<lambda>kp. JSON_serialize h (a # stack) (pvalue (snd kp))) (props (h ! a))) of
        Throws e \<Rightarrow> Throws e
      | Returns members \<Rightarrow>
          Returns (Some (JObj (concat (map (\<lambda>(k, m). case m of None \<Rightarrow> [] | Some j \<Rightarrow> [(k, j)])
                                  (zip (map fst (props (h ! a))) members))))))"
  by (subst JSON_serialize.simps) simp

lemma collect_all_Some:
  "list_all2 (\<lambda>x y. f x = Returns (Some y)) xs ys \<Longrightarrow> collect (map f xs) = Returns (map Some ys)"
  by (induction rule: list_all2_induct) simp_all

lemma members_all_Some:
  "map fst ps = map fst ms \<Longrightarrow>
   concat (map (\<lambda>(k, m). case m of None \<Rightarrow> [] | Some j \<Rightarrow> [(k, j)])
            (zip (map fst ps) (map Some (map snd ms)))) = ms"
proof (induction ms arbitrary: ps)
  case Nil
  then show ?case by simp
next
  case (Cons m ms)
  then obtain p ps' where "ps = p # ps'" by (cases ps) auto
  with Cons show ?case by (cases m) auto
qed

lemma size_element: "j \<in> set js \<Longrightarrow> size j < size (JArr js)"
  by (induction js) auto

lemma size_member: "m \<in> set ms \<Longrightarrow> size (snd m) < size (JObj ms)"
  by (induction ms) auto

lemma JSON_serialize_represents:
  assumes "represents h v t"
    and "\<And>b t'. b \<in> set stack \<Longrightarrow> represents h (VRef b) t' \<Longrightarrow> size t < size t'"
  shows "JSON_serialize h stack v = Returns (Some t)"
  using assms
proof (induction t arbitrary: v stack)
  case (JArr js)
  from represents_Ref(1)[OF JArr.prems(1)] obtain a where
    a: "v = VRef a" "a < length h" "kind (h ! a) = KArray" by blast
  from JArr.prems(1) have ra: "represents h (VRef a) (JArr js)" unfolding a(1) .
  have ns: "a \<notin> set stack"
  proof
    assume "a \<in> set stack"
    from JArr.prems(2)[OF this ra] show False by simp
  qed
  from JArr.prems(1) a
  have l: "list_all2 (\<lambda>kp j. represents h (pvalue (snd kp)) j) (props (h ! a)) js" by simp
  have "list_all2 (\<lambda>kp j. JSON_serialize h (a # stack) (pvalue (snd kp)) = Returns (Some j))
          (props (h ! a)) js"
    using l
  proof (rule list.rel_mono_strong)
    fix kp j assume j: "j \<in> set js" and r: "represents h (pvalue (snd kp)) j"
    show "JSON_serialize h (a # stack) (pvalue (snd kp)) = Returns (Some j)"
    proof (rule JArr.IH[OF j r])
      fix b t' assume b: "b \<in> set (a # stack)" and rb: "represents h (VRef b) t'"
      show "size j < size t'"
      proof (cases "b = a")
        case True
        from represents_unique[OF ra rb[unfolded True]] have "t' = JArr js" by simp
        with size_element[OF j] show ?thesis by simp
      next
        case False
        with b have "b \<in> set stack" by simp
        from JArr.prems(2)[OF this rb] size_element[OF j] show ?thesis by simp
      qed
    qed
  qed
  then have "collect (map (\<lambda>kp. JSON_serialize h (a # stack) (pvalue (snd kp))) (props (h ! a)))
      = Returns (map Some js)" by (rule collect_all_Some)
  with a ns show ?case by (simp add: JSON_serialize_array comp_def)
next
  case (JObj ms)
  from represents_Ref(2)[OF JObj.prems(1)] obtain a where
    a: "v = VRef a" "a < length h" "kind (h ! a) = KObject" by blast
  from JObj.prems(1) have ra: "represents h (VRef a) (JObj ms)" unfolding a(1) .
  have ns: "a \<notin> set stack"
  proof
    assume "a \<in> set stack"
    from JObj.prems(2)[OF this ra] show False by simp
  qed
  from JObj.prems(1) a
  have l: "list_all2 (\<lambda>kp m. represents h (pvalue (snd kp)) (snd m)) (props (h ! a)) ms"
    and k: "map fst (props (h ! a)) = map fst ms" by simp_all
  have "list_all2 (\<lambda>kp m. JSON_serialize h (a # stack) (pvalue (snd kp)) = Returns (Some (snd m)))
          (props (h ! a)) ms"
    using l
  proof (rule list.rel_mono_strong)
    fix kp m assume m: "m \<in> set ms" and r: "represents h (pvalue (snd kp)) (snd m)"
    have sm: "snd m \<in> Basic_BNFs.snds m" by (simp add: snds.simps)
    show "JSON_serialize h (a # stack) (pvalue (snd kp)) = Returns (Some (snd m))"
    proof (rule JObj.IH[OF m sm r])
      fix b t' assume b: "b \<in> set (a # stack)" and rb: "represents h (VRef b) t'"
      show "size (snd m) < size t'"
      proof (cases "b = a")
        case True
        from represents_unique[OF ra rb[unfolded True]] have "t' = JObj ms" by simp
        with size_member[OF m] show ?thesis by simp
      next
        case False
        with b have "b \<in> set stack" by simp
        from JObj.prems(2)[OF this rb] size_member[OF m] show ?thesis by simp
      qed
    qed
  qed
  then have "list_all2 (\<lambda>kp j. JSON_serialize h (a # stack) (pvalue (snd kp)) = Returns (Some j))
          (props (h ! a)) (map snd ms)" by (simp add: list_all2_map2)
  then have "collect (map (\<lambda>kp. JSON_serialize h (a # stack) (pvalue (snd kp))) (props (h ! a)))
      = Returns (map Some (map snd ms))" by (rule collect_all_Some)
  with a ns members_all_Some[OF k] show ?case by (simp add: JSON_serialize_object)
qed (simp_all add: JSON_serialize_primitive)

lemma zip_index_values:
  "list_all2 Q vs js \<Longrightarrow>
   list_all2 (\<lambda>kp j. Q (pvalue (snd kp)) j) (zip (map Index [0..<length vs]) (map newProperty vs)) js"
  by (auto simp: list_all2_conv_all_nth newProperty_def)

lemma JSON_build_represents:
  "JSON_build j h = (v, h1) \<Longrightarrow> distinctKeys j \<Longrightarrow> represents h1 v j"
  "JSON_build_elements js h = (vs, h2) \<Longrightarrow> list_all distinctKeys js \<Longrightarrow>
     list_all2 (represents h2) vs js"
  "JSON_build_members ms h = (ps, h3) \<Longrightarrow> list_all (\<lambda>m. distinctKeys (snd m)) ms \<Longrightarrow>
     map fst ps = map fst ms \<and>
     list_all2 (\<lambda>kp m. represents h3 (pvalue (snd kp)) (snd m)) ps ms"
proof (induction j h and js h and ms h arbitrary: v h1 and vs h2 and ps h3
       rule: JSON_build_JSON_build_elements_JSON_build_members.induct)
  case (5 js h)
  obtain vs h' where e: "JSON_build_elements js h = (vs, h')" by (cases "JSON_build_elements js h")
  let ?ob = "JSObject KArray True (zip (map Index [0..<length vs]) (map newProperty vs))"
  from "5.prems" e have v: "v = VRef (length h')" and h1: "h1 = h' @ [?ob]" by simp_all
  from "5.IH"[OF e] "5.prems"(2) have l: "list_all2 (represents h') vs js" by simp
  from l have "list_all2 (represents h1) vs js"
    unfolding h1 by (rule list.rel_mono_strong) (rule represents_append)
  then have "list_all2 (\<lambda>kp j. represents h1 (pvalue (snd kp)) j)
      (zip (map Index [0..<length vs]) (map newProperty vs)) js" by (rule zip_index_values)
  moreover from l have "length vs = length js" by (rule list_all2_lengthD)
  ultimately show ?case by (simp add: v h1)
next
  case (6 ms h)
  obtain ps h' where e: "JSON_build_members ms h = (ps, h')" by (cases "JSON_build_members ms h")
  from "6.prems" e have v: "v = VRef (length h')" and h1: "h1 = h' @ [JSObject KObject True ps]"
    by simp_all
  from "6.IH"[OF e] "6.prems"(2) have k: "map fst ps = map fst ms"
    and l: "list_all2 (\<lambda>kp m. represents h' (pvalue (snd kp)) (snd m)) ps ms" by simp_all
  from l have "list_all2 (\<lambda>kp m. represents h1 (pvalue (snd kp)) (snd m)) ps ms"
    unfolding h1 by (rule list.rel_mono_strong) (rule represents_append)
  with k "6.prems"(2) show ?case by (simp add: v h1)
next
  case (8 j js h)
  obtain v' h' where b: "JSON_build j h = (v', h')" by (cases "JSON_build j h")
  obtain vs' h'' where e: "JSON_build_elements js h' = (vs', h'')"
    by (cases "JSON_build_elements js h'")
  from "8.prems" b e have r: "vs = v' # vs'" "h2 = h''" by simp_all
  from "8.IH"(1)[OF b] "8.prems"(2) have r1: "represents h' v' j" by simp
  from "8.IH"(2)[OF b[symmetric] e] "8.prems"(2) have r2: "list_all2 (represents h'') vs' js" by simp
  from JSON_build_allocates(2)[OF e] obtain new where "h'' = h' @ new" by (auto simp: allocates_def)
  with r1 have "represents h'' v' j" by (simp add: represents_append)
  with r r2 show ?case by simp
next
  case (10 k j ms h)
  obtain v' h' where b: "JSON_build j h = (v', h')" by (cases "JSON_build j h")
  obtain ps' h'' where e: "JSON_build_members ms h' = (ps', h'')"
    by (cases "JSON_build_members ms h'")
  from "10.prems" b e have r: "ps = (k, newProperty v') # ps'" "h3 = h''" by simp_all
  from "10.IH"(1)[OF b] "10.prems"(2) have r1: "represents h' v' j" by simp
  from "10.IH"(2)[OF b[symmetric] e] "10.prems"(2) have k: "map fst ps' = map fst ms"
    and r2: "list_all2 (\<lambda>kp m. represents h'' (pvalue (snd kp)) (snd m)) ps' ms" by simp_all
  from JSON_build_allocates(3)[OF e] obtain new where "h'' = h' @ new" by (auto simp: allocates_def)
  with r1 have "represents h'' v' j" by (simp add: represents_append)
  with r k r2 show ?case by (simp add: newProperty_def)
qed simp_all

lemma naiveDeepClone_represents:
  assumes "represents h v t"
  shows "\<exists>c h1. naiveDeepClone v h = (Returns c, h1) \<and> represents h1 c t"
proof -
  from assms have "JSON_serialize h [] v = Returns (Some t)"
    by (rule JSON_serialize_represents) simp
  moreover obtain c h1 where b: "JSON_build t h = (c, h1)" by (cases "JSON_build t h")
  moreover from JSON_build_represents(1)[OF b represents_distinctKeys[OF assms]]
  have "represents h1 c t" .
  ultimately show ?thesis by (simp add: naiveDeepClone_def JSON_stringify_def JSON_parse_def)
qed

subsection \<open>The reachable objects\<close>

lemma set_successors: "set (successors h as) = succs h (set as)"
  by (auto simp: successors_def succs_def split: if_splits)

lemma set_reachIter: "set (reachIter n h as) = (grow h ^^ n) (set as)"
  by (induction n arbitrary: as) (simp_all add: set_successors grow_def funpow_swap1)

lemma grow_progress:
  assumes "\<not> succs h (grow h S) \<subseteq> grow h S"
  shows "valid h S \<subset> valid h (grow h S)"
proof -
  from assms obtain a c where a: "a \<in> grow h S" "a < length h" "c \<in> set (refsOf (h ! a))"
    and c: "c \<notin> grow h S" by (auto simp: succs_def)
  have "a \<notin> S"
  proof
    assume "a \<in> S"
    with a have "c \<in> succs h S" by (auto simp: succs_def)
    with c show False by (simp add: grow_def)
  qed
  with a have "a \<in> valid h (grow h S)" "a \<notin> valid h S" by (simp_all add: valid_def)
  moreover have "valid h S \<subseteq> valid h (grow h S)" by (auto simp: valid_def grow_def)
  ultimately show ?thesis by blast
qed

lemma finite_valid: "finite (valid h S)"
  by (simp add: valid_def)

lemma card_valid: "card (valid h S) \<le> length h"
proof -
  have "valid h S \<subseteq> {..<length h}" by (auto simp: valid_def)
  then have "card (valid h S) \<le> card {..<length h}" by (intro card_mono) simp_all
  then show ?thesis by simp
qed

lemma grow_closed_or_large:
  "succs h ((grow h ^^ i) {a}) \<subseteq> (grow h ^^ i) {a} \<or> i < card (valid h ((grow h ^^ i) {a}))"
proof (induction i)
  case 0
  show ?case
  proof (cases "a < length h")
    case True
    then have "valid h {a} = {a}" by (auto simp: valid_def)
    then show ?thesis by simp
  next
    case False
    then have "succs h {a} = {}" by (auto simp: succs_def)
    then show ?thesis by simp
  qed
next
  case (Suc i)
  let ?S = "(grow h ^^ i) {a}"
  show ?case
  proof (cases "succs h (grow h ?S) \<subseteq> grow h ?S")
    case True
    then show ?thesis by simp
  next
    case False
    from grow_progress[OF False] have lt: "card (valid h ?S) < card (valid h (grow h ?S))"
      by (intro psubset_card_mono finite_valid)
    from Suc.IH have "i < card (valid h ?S)"
    proof
      assume "succs h ?S \<subseteq> ?S"
      then have "grow h ?S = ?S" by (auto simp: grow_def)
      with False \<open>succs h ?S \<subseteq> ?S\<close> show ?thesis by simp
    qed
    with lt show ?thesis by simp
  qed
qed

lemma reachable_closed:
  assumes "a \<in> set (reachable h v)" "a < length h" "c \<in> set (refsOf (h ! a))"
  shows "c \<in> set (reachable h v)"
proof -
  from assms(1) obtain r where v: "v = VRef r" by (cases v) (simp_all add: reachable_def)
  let ?S = "(grow h ^^ length h) {r}"
  have S: "set (reachable h v) = ?S" by (simp add: v reachable_def set_reachIter)
  from grow_closed_or_large[where h = h and i = "length h" and a = r] card_valid[where h = h and S = "?S"]
  have "succs h ?S \<subseteq> ?S" by auto
  moreover from assms S have "c \<in> succs h ?S" by (auto simp: succs_def)
  ultimately show ?thesis using S by auto
qed

lemma grow_funpow_mono: "S \<subseteq> (grow h ^^ n) S"
  by (induction n) (auto simp: grow_def)

lemma reachable_root: "VRef a \<in> {v} \<Longrightarrow> a \<in> set (reachable h v)"
  using grow_funpow_mono[where S = "{a}" and h = h and n = "length h"] by (auto simp: reachable_def set_reachIter)

lemma refs_concat_iff:
  "c \<in> set (concat (map (\<lambda>kp. case pvalue (snd kp) of VRef c \<Rightarrow> [c] | _ \<Rightarrow> []) ps))
   \<longleftrightarrow> (\<exists>kp \<in> set ps. pvalue (snd kp) = VRef c)"
  by (induction ps) (auto split: jsval.splits)

lemma refsOf_iff: "c \<in> set (refsOf ob) \<longleftrightarrow> (\<exists>kp \<in> set (props ob). pvalue (snd kp) = VRef c)"
  unfolding refsOf_def by (rule refs_concat_iff)

lemma list_all2_left_witness:
  "list_all2 P xs ys \<Longrightarrow> x \<in> set xs \<Longrightarrow> \<exists>y. P x y"
  by (induction rule: list_all2_induct) auto

lemma represents_child:
  assumes "represents h (VRef a) t" "kp \<in> set (props (h ! a))"
  shows "\<exists>t'. represents h (pvalue (snd kp)) t'"
proof (cases t)
  case (JArr js)
  with assms(1) have "list_all2 (\<lambda>kp j. represents h (pvalue (snd kp)) j) (props (h ! a)) js"
    by simp
  from list_all2_left_witness[OF this assms(2)] show ?thesis .
next
  case (JObj ms)
  with assms(1) have "list_all2 (\<lambda>kp m. represents h (pvalue (snd kp)) (snd m)) (props (h ! a)) ms"
    by simp
  from list_all2_left_witness[OF this assms(2)] show ?thesis by blast
qed (use assms(1) in simp_all)

lemma grow_represented:
  assumes "\<forall>a \<in> S. \<exists>t. represents h (VRef a) t"
  shows "\<forall>a \<in> grow h S. \<exists>t. represents h (VRef a) t"
proof
  fix c assume "c \<in> grow h S"
  then consider "c \<in> S" | "c \<in> succs h S" by (auto simp: grow_def)
  then show "\<exists>t. represents h (VRef c) t"
  proof cases
    case 1
    with assms show ?thesis by blast
  next
    case 2
    then obtain a kp where a: "a \<in> S" "kp \<in> set (props (h ! a))" "pvalue (snd kp) = VRef c"
      by (auto simp: succs_def refsOf_iff)
    with assms obtain t where "represents h (VRef a) t" by blast
    from represents_child[OF this a(2)] a(3) show ?thesis by simp
  qed
qed

lemma funpow_represented:
  "\<forall>a \<in> S. \<exists>t. represents h (VRef a) t \<Longrightarrow> \<forall>a \<in> (grow h ^^ n) S. \<exists>t. represents h (VRef a) t"
  by (induction n) (simp_all add: grow_represented)

lemma reachable_represented:
  assumes "represents h v t" "a \<in> set (reachable h v)"
  shows "\<exists>t'. represents h (VRef a) t'"
proof -
  from assms(2) obtain r where v: "v = VRef r" by (cases v) (simp_all add: reachable_def)
  with assms(1) have "\<forall>a \<in> {r}. \<exists>t. represents h (VRef a) t" by blast
  from funpow_represented[OF this, of "length h"] assms(2) v show ?thesis
    by (simp add: reachable_def set_reachIter)
qed

lemma represented_not_function: "represents h (VRef a) t \<Longrightarrow> \<not> isFunctionAt h a"
  by (cases t) (auto simp: isFunctionAt_def)

lemma reachable_no_function:
  assumes "represents h v t"
  shows "\<not> list_ex (isFunctionAt h) (reachable h v)"
proof
  assume "list_ex (isFunctionAt h) (reachable h v)"
  then obtain a where a: "a \<in> set (reachable h v)" "isFunctionAt h a" by (auto simp: list_ex_iff)
  from reachable_represented[OF assms a(1)] obtain t' where "represents h (VRef a) t'" ..
  from represented_not_function[OF this] a(2) show False ..
qed

lemma filter_upt_rank:
  assumes "a < n" "P a"
  shows "length (filter P [0..<a]) < length (filter P [0..<n]) \<and>
         filter P [0..<n] ! length (filter P [0..<a]) = a"
proof -
  from assms(1) obtain k where n: "n = a + k" and k: "0 < k"
    by (auto dest: less_imp_add_positive)
  have "[0..<a + k] = [0..<a] @ [a..<a + k]" by (rule upt_add_eq_append) simp
  moreover from k have "[a..<a + k] = a # [Suc a..<a + k]" by (simp add: upt_conv_Cons)
  ultimately have "[0..<n] = [0..<a] @ a # [Suc a..<n]" using n by simp
  then have "filter P [0..<n] = filter P [0..<a] @ a # filter P [Suc a..<n]"
    using assms(2) by simp
  then show ?thesis by (simp add: nth_append)
qed

lemma structuredClone_nth:
  assumes "a < length h" "a \<in> set live"
  shows "relocate h live a < length (h @ map (\<lambda>a. cloneObject h live (h ! a)) (filter (\<lambda>a. a \<in> set live) [0..<length h]))"
    and "(h @ map (\<lambda>a. cloneObject h live (h ! a)) (filter (\<lambda>a. a \<in> set live) [0..<length h]))
           ! relocate h live a = cloneObject h live (h ! a)"
  using filter_upt_rank[OF assms(1), of "\<lambda>a. a \<in> set live"] assms(2)
  by (simp_all add: relocate_def nth_append)

lemma structuredClone_represents_aux:
  fixes h :: heap and root :: jsval
  defines "live \<equiv> reachable h root"
  defines "h' \<equiv> h @ map (\<lambda>a. cloneObject h live (h ! a)) (filter (\<lambda>a. a \<in> set live) [0..<length h])"
  assumes "represents h v t" "\<And>a. v = VRef a \<Longrightarrow> a \<in> set live"
  shows "represents h' (relocateValue h live v) t"
  using assms(3,4)
proof (induction t arbitrary: v)
  case (JArr js)
  from represents_Ref(1)[OF JArr.prems(1)] obtain a where
    a: "v = VRef a" "a < length h" "kind (h ! a) = KArray" by blast
  from JArr.prems(2)[OF a(1)] have live: "a \<in> set live" .
  from structuredClone_nth[OF a(2) live]
  have lt: "relocate h live a < length h'" and nth: "h' ! relocate h live a = cloneObject h live (h ! a)"
    by (simp_all add: h'_def)
  from JArr.prems(1) a
  have l: "list_all2 (\<lambda>kp j. represents h (pvalue (snd kp)) j) (props (h ! a)) js"
    and k: "map fst (props (h ! a)) = map Index [0..<length js]" by simp_all
  have "list_all2 (\<lambda>kp j. represents h' (relocateValue h live (pvalue (snd kp))) j) (props (h ! a)) js"
    using l
  proof (rule list.rel_mono_strong)
    fix kp j assume kp: "kp \<in> set (props (h ! a))" and j: "j \<in> set js"
      and r: "represents h (pvalue (snd kp)) j"
    show "represents h' (relocateValue h live (pvalue (snd kp))) j"
    proof (rule JArr.IH[OF j r])
      fix c assume "pvalue (snd kp) = VRef c"
      with kp have c: "c \<in> set (refsOf (h ! a))" by (auto simp: refsOf_iff)
      from live[unfolded live_def] a(2) c show "c \<in> set live"
        unfolding live_def by (rule reachable_closed)
    qed
  qed
  then have "list_all2 (\<lambda>kp j. represents h' (pvalue (snd kp)) j)
      (props (cloneObject h live (h ! a))) js"
    by (simp add: cloneObject_def list_all2_map1 newProperty_def)
  with a lt nth k show ?case
    by (simp add: relocateValue_def) (simp add: cloneObject_def comp_def)
next
  case (JObj ms)
  from represents_Ref(2)[OF JObj.prems(1)] obtain a where
    a: "v = VRef a" "a < length h" "kind (h ! a) = KObject" by blast
  from JObj.prems(2)[OF a(1)] have live: "a \<in> set live" .
  from structuredClone_nth[OF a(2) live]
  have lt: "relocate h live a < length h'" and nth: "h' ! relocate h live a = cloneObject h live (h ! a)"
    by (simp_all add: h'_def)
  from JObj.prems(1) a
  have l: "list_all2 (\<lambda>kp m. represents h (pvalue (snd kp)) (snd m)) (props (h ! a)) ms"
    and k: "map fst (props (h ! a)) = map fst ms" and d: "distinct (map fst ms)" by simp_all
  have "list_all2 (\<lambda>kp m. represents h' (relocateValue h live (pvalue (snd kp))) (snd m))
      (props (h ! a)) ms"
    using l
  proof (rule list.rel_mono_strong)
    fix kp m assume kp: "kp \<in> set (props (h ! a))" and m: "m \<in> set ms"
      and r: "represents h (pvalue (snd kp)) (snd m)"
    have sm: "snd m \<in> Basic_BNFs.snds m" by (simp add: snds.simps)
    show "represents h' (relocateValue h live (pvalue (snd kp))) (snd m)"
    proof (rule JObj.IH[OF m sm r])
      fix c assume "pvalue (snd kp) = VRef c"
      with kp have c: "c \<in> set (refsOf (h ! a))" by (auto simp: refsOf_iff)
      from live[unfolded live_def] a(2) c show "c \<in> set live"
        unfolding live_def by (rule reachable_closed)
    qed
  qed
  then have "list_all2 (\<lambda>kp m. represents h' (pvalue (snd kp)) (snd m))
      (props (cloneObject h live (h ! a))) ms"
    by (simp add: cloneObject_def list_all2_map1 newProperty_def)
  with a lt nth k d show ?case
    by (simp add: relocateValue_def) (simp add: cloneObject_def comp_def)
qed (simp_all add: relocateValue_def)

lemma structuredClone_represents:
  assumes "represents h v t"
  shows "\<exists>c h1. structuredClone v h = (Returns c, h1) \<and> represents h1 c t"
proof -
  let ?live = "reachable h v"
  let ?h1 = "h @ map (\<lambda>a. cloneObject h ?live (h ! a)) (filter (\<lambda>a. a \<in> set ?live) [0..<length h])"
  from reachable_no_function[OF assms]
  have "structuredClone v h = (Returns (relocateValue h ?live v), ?h1)"
    by (simp add: structuredClone_def Let_def)
  moreover have "represents ?h1 (relocateValue h ?live v) t"
    by (rule structuredClone_represents_aux[OF assms]) (simp add: reachable_root)
  ultimately show ?thesis by blast
qed

lemma deepClone_represents:
  assumes "represents h v t"
  shows "\<exists>c h1. deepClone w v h = (Returns c, h1) \<and> represents h1 c t"
  using structuredClone_represents[OF assms] naiveDeepClone_represents[OF assms]
  by (simp add: deepClone_def)

subsection \<open>The claim about the cloner\<close>

text \<open>
  Claim C5. For a value that represents a JSON tree, \<open>deepClone\<close> returns, whichever
  cloner the window offers; the clone represents the same tree, the value still does,
  the objects that existed before are unchanged, and no object reached from the clone
  existed before.
\<close>

theorem deepClone_copies_json:
  assumes "represents h v t"
  shows "\<exists>c h1. deepClone w v h = (Returns c, h1) \<and> represents h1 c t \<and> represents h1 v t \<and>
           take (length h) h1 = h \<and> (\<forall>a. ownReach h1 c a \<longrightarrow> length h \<le> a)"
proof -
  from deepClone_represents[OF assms] obtain c h1 where
    c: "deepClone w v h = (Returns c, h1)" and r: "represents h1 c t" by blast
  from deepClone_allocates[OF c] have al: "allocates h h1" and fv: "freshValue (length h) c"
    by simp_all
  from al assms have "represents h1 v t" by (rule represents_allocates)
  moreover from al have "take (length h) h1 = h" by (rule allocates_take)
  moreover have "\<forall>a. ownReach h1 c a \<longrightarrow> length h \<le> a"
    using ownReach_fresh[OF al fv] by blast
  ultimately show ?thesis using c r by blast
qed

text \<open>
  Claim C5 on \<open>{a: 1, b: {c: 2}, list: [4, b]}\<close>, with both cloners.
\<close>

theorem deepClone_copies_json_witness:
  "represents heap_json (VRef 0) json_example \<and>
   deepClone (Window True) (VRef 0) heap_json = (Returns (VRef 3), heap_json_structured) \<and>
   represents heap_json_structured (VRef 3) json_example \<and>
   deepClone (Window False) (VRef 0) heap_json = (Returns (VRef 6), heap_json_naive) \<and>
   represents heap_json_naive (VRef 6) json_example \<and>
   take (length heap_json) heap_json_naive = heap_json"
proof -
  have r: "represents heap_json (VRef 0) json_example" by code_simp
  have s: "deepClone (Window True) (VRef 0) heap_json = (Returns (VRef 3), heap_json_structured)"
    by code_simp
  have n: "deepClone (Window False) (VRef 0) heap_json = (Returns (VRef 6), heap_json_naive)"
    by code_simp
  from deepClone_copies_json[OF r, of "Window True"] deepClone_copies_json[OF r, of "Window False"]
  show ?thesis using r s n by simp
qed

end
